theory Spec2Isabelle
  imports Main "HOL-Library.AList" "HOL-Library.Sublist" "HOL-Library.Multiset"
begin


section \<open>Path normalization (isAbsolutePath, \_ensureTrailingSlash, \_normalizePath)\<close>

text \<open>
  JavaScript strings are modelled as \<^typ>\<open>string\<close>. The code only ever compares single
  characters with \<open>/\<close>, \<open>:\<close> and \<open>.\<close>, so the width of a character plays no role.
  Reading \<open>s[i]\<close> beyond the end of a string yields \<open>undefined\<close>, which is different
  from every character: \<open>charAt\<close> returns \<open>None\<close> there.
\<close>

datatype fs_exception =
    PathsMustBeAbsolute string
  | InvalidAbsolutePath string

definition charAt :: "string \<Rightarrow> nat \<Rightarrow> char option" where
  "charAt s i = (if i < length s then Some (s ! i) else None)"

definition isAbsolutePath :: "string \<Rightarrow> bool" where
  "isAbsolutePath fullPath \<longleftrightarrow>
     charAt fullPath 0 = Some CHR ''/'' \<or>
     (charAt fullPath 1 = Some CHR '':'' \<and> charAt fullPath 2 = Some CHR ''/'')"

text \<open>
  \<open>path[path.length - 1] !== "/"\<close>: on the empty string the read is \<open>undefined\<close>.
\<close>

definition ensureTrailingSlash :: "string \<Rightarrow> string" where
  "ensureTrailingSlash path =
     (if path \<noteq> [] \<and> last path = CHR ''/'' then path else path @ ''/'')"

text \<open>
  \<open>path.replace(/\/{2,}/g, "/")\<close>: every maximal run of two or more slashes becomes one
  slash.
\<close>

fun removeDuplicatedSlashes :: "string \<Rightarrow> string" where
  "removeDuplicatedSlashes (a # b # cs) =
     (if a = CHR ''/'' \<and> b = CHR ''/'' then removeDuplicatedSlashes (b # cs)
      else a # removeDuplicatedSlashes (b # cs))"
| "removeDuplicatedSlashes cs = cs"

text \<open>
  \<open>path.search(/\/{2,}/g) === 0\<close>: the first run of slashes starts the string.
\<close>

fun startsWithDuplicatedSlash :: "string \<Rightarrow> bool" where
  "startsWithDuplicatedSlash (a # b # cs) \<longleftrightarrow> a = CHR ''/'' \<and> b = CHR ''/''"
| "startsWithDuplicatedSlash cs \<longleftrightarrow> False"

text \<open>
  \<open>path.indexOf("..") !== -1\<close>: two adjacent dots anywhere in the string.
\<close>

fun containsDotDot :: "string \<Rightarrow> bool" where
  "containsDotDot (a # b # cs) \<longleftrightarrow>
     (a = CHR ''.'' \<and> b = CHR ''.'') \<or> containsDotDot (b # cs)"
| "containsDotDot cs \<longleftrightarrow> False"

text \<open>\<open>path.split("/")\<close> and \<open>segments.join("/")\<close>.\<close>

fun splitSlash :: "string \<Rightarrow> string list" where
  "splitSlash [] = [[]]"
| "splitSlash (c # cs) =
     (if c = CHR ''/'' then [] # splitSlash cs
      else (case splitSlash cs of
              [] \<Rightarrow> [[c]]
            | seg # segs \<Rightarrow> (c # seg) # segs))"

fun joinSlash :: "string list \<Rightarrow> string" where
  "joinSlash [] = []"
| "joinSlash [seg] = seg"
| "joinSlash (seg # segs) = seg @ CHR ''/'' # joinSlash segs"

text \<open>
  The loop that removes \<open>..\<close> segments:
  \<^verbatim>\<open>for (i = 1; i < segments.length; i++) {
    if (segments[i] === "..") {
        if (i < 2) { throw ... }
        segments.splice(i - 1, 2);
        i -= 2;
    }
}\<close>
  After the splice the index is decreased by two and then increased by the loop header, so
  the next iteration runs at \<open>i - 1\<close>. \<open>None\<close> is the thrown error.
\<close>

function removeDotDotSegments :: "string list \<Rightarrow> nat \<Rightarrow> string list option" where
  "removeDotDotSegments segments i =
     (if i < length segments then
        (if segments ! i = ''..'' then
           (if i < 2 then None
            else removeDotDotSegments (take (i - 1) segments @ drop (i + 1) segments) (i - 1))
         else removeDotDotSegments segments (i + 1))
      else Some segments)"
  by pat_completeness auto
termination
  by (relation "measure (\<lambda>(segments, i). 2 * length segments - i)") auto

declare removeDotDotSegments.simps [simp del]

text \<open>
  \<open>normalizeUNCPaths\<close> is the flag \<open>this._impl.normalizeUNCPaths\<close> of the backend.
\<close>

definition normalizePath :: "bool \<Rightarrow> string \<Rightarrow> bool \<Rightarrow> fs_exception + string" where
  "normalizePath normalizeUNCPaths path isDirectory =
     (if \<not> isAbsolutePath path then Inl (PathsMustBeAbsolute path)
      else
        let isUNCPath = normalizeUNCPaths \<and> startsWithDuplicatedSlash path;
            path1 = removeDuplicatedSlashes path
        in (case (if containsDotDot path1
                  then map_option joinSlash (removeDotDotSegments (splitSlash path1) 1)
                  else Some path1) of
              None \<Rightarrow> Inl (InvalidAbsolutePath path1)
            | Some path2 \<Rightarrow>
                let path3 = (if isDirectory then ensureTrailingSlash path2 else path2)
                in Inr (if isUNCPath then CHR ''/'' # path3 else path3)))"


text \<open>
  Two notions for stating what normalization achieves: a run of at least two slashes
  somewhere in the string (what \<open>/\/{2,}/\<close> matches), and the number of slashes the
  string ends with.
\<close>

fun hasDuplicatedSlash :: "string \<Rightarrow> bool" where
  "hasDuplicatedSlash (a # b # cs) \<longleftrightarrow>
     (a = CHR ''/'' \<and> b = CHR ''/'') \<or> hasDuplicatedSlash (b # cs)"
| "hasDuplicatedSlash cs \<longleftrightarrow> False"

definition trailingSlashes :: "string \<Rightarrow> nat" where
  "trailingSlashes s = length (takeWhile (\<lambda>c. c = CHR ''/'') (rev s))"

text \<open>The string is not empty and its last character is a slash.\<close>

definition endsWithSlash :: "string \<Rightarrow> bool" where
  "endsWithSlash s \<longleftrightarrow> s \<noteq> [] \<and> last s = CHR ''/''"

text \<open>No segment after the first is \<open>..\<close>: what the loop over the segments achieves.\<close>

definition noDotDotSegment :: "string list \<Rightarrow> bool" where
  "noDotDotSegment segs \<longleftrightarrow> (\<forall>j. 1 \<le> j \<and> j < length segs \<longrightarrow> segs ! j \<noteq> ''..'')"


section \<open>The change barrier (\_beginChange, \_endChange, \_enqueueExternalChange)\<close>

text \<open>
  Modelled from the spec: \<open>FileSystemStats\<close> is not part of the sources at hand. Of a stat
  object the code reads \<open>isDirectory\<close> and \<open>mtime.getTime()\<close> (milliseconds; an
  integer here).
\<close>

record stats =
  isDirectory :: bool
  mtime :: int

text \<open>An element of \<open>_externalChanges\<close>: \<open>{path: path, stat: stat}\<close>, both nullable.\<close>

record change =
  changePath :: "string option"
  changeStat :: "stats option"

text \<open>
  The part of the FileSystem object that the barrier reads and writes. Everything else
  the object holds is \<open>world\<close>; \<open>_handleExternalChange\<close> is a parameter \<open>h\<close> working
  on it (\<open>None\<close> when it throws), so it can reach neither the counter nor the queue.
\<close>

record 'w change_barrier =
  activeChangeCount :: int
  externalChanges :: "change list"
  world :: 'w

text \<open>\<open>Array.prototype.forEach\<close> with a callback that may throw: the first throw ends it.\<close>

fun forEachChange :: "(change \<Rightarrow> 'w \<Rightarrow> 'w option) \<Rightarrow> change list \<Rightarrow> 'w \<Rightarrow> 'w option" where
  "forEachChange h [] w = Some w"
| "forEachChange h (info # infos) w =
     (case h info w of None \<Rightarrow> None | Some w' \<Rightarrow> forEachChange h infos w')"

text \<open>
  The result is the state after a normal return, or \<open>None\<close> when the handler threw; then
  \<open>this._externalChanges.length = 0\<close> has not run.
\<close>

definition triggerExternalChangesNow ::
  "(change \<Rightarrow> 'w \<Rightarrow> 'w option) \<Rightarrow> 'w change_barrier \<Rightarrow> 'w change_barrier option" where
  "triggerExternalChangesNow h fs =
     (case forEachChange h (externalChanges fs) (world fs) of
        None \<Rightarrow> None
      | Some w \<Rightarrow> Some (fs\<lparr>externalChanges := [], world := w\<rparr>))"


definition beginChange :: "'w change_barrier \<Rightarrow> 'w change_barrier" where
  "beginChange fs = fs\<lparr>activeChangeCount := activeChangeCount fs + 1\<rparr>"

text \<open>A count below zero is only reported on the console; the function goes on.\<close>

definition endChange ::
  "(change \<Rightarrow> 'w \<Rightarrow> 'w option) \<Rightarrow> 'w change_barrier \<Rightarrow> 'w change_barrier option" where
  "endChange h fs =
     (let fs1 = fs\<lparr>activeChangeCount := activeChangeCount fs - 1\<rparr>
      in if activeChangeCount fs1 = 0 then triggerExternalChangesNow h fs1 else Some fs1)"


section \<open>Entries, the index and the event log\<close>

text \<open>
  Modelled from the spec: the classes \<open>File\<close>, \<open>Directory\<close>, \<open>RemoteFile\<close> and
  \<open>FileSystemEntry\<close> are not part of the sources at hand. An entry is an object with a
  normalized \<open>fullPath\<close>, the flag \<open>isFile\<close>, a cached stat and cached contents (the
  text of a file, the listing of a directory), and \<open>_clearCachedData\<close> forgets what is
  cached. Objects are compared by reference in the code: \<open>ident\<close> is the identity of the
  object, handed out by \<open>new\<close> from the counter \<open>nextId\<close>.
\<close>

datatype entry_constructor = File | Directory

record entry =
  ident :: nat
  fullPath :: string
  isFile :: bool
  entryStat :: "stats option"
  fileContents :: "string option"
  dirContents :: "nat list option"

definition newEntry :: "entry_constructor \<Rightarrow> nat \<Rightarrow> string \<Rightarrow> entry" where
  "newEntry EntryConstructor i p =
     \<lparr>ident = i, fullPath = p, isFile = (EntryConstructor = File),
      entryStat = None, fileContents = None, dirContents = None\<rparr>"

text \<open>
  Modelled from the spec: \<open>_clearCachedData\<close> is a method of the entry classes.
  \<open>entry._clearCachedData(true)\<close>, and \<open>entry._clearCachedData()\<close> of a file: the entry
  forgets its own cached stat and contents (\<open>true\<close> keeps a directory from visiting its
  children).
\<close>

definition clearCachedData :: "entry \<Rightarrow> entry" where
  "clearCachedData e = e\<lparr>entryStat := None, fileContents := None, dirContents := None\<rparr>"

text \<open>
  Modelled from the spec: \<open>FileIndex\<close> is not part of the sources at hand. It is a mapping
  from normalized path to entry with \<open>getEntry\<close>, \<open>addEntry\<close> (under the entry's own
  \<open>fullPath\<close>), \<open>visitAll\<close> and \<open>removeEntry\<close>; here an association list.
  \<open>removeEntries\<close> is a \<open>visitAll\<close> whose visitor calls \<open>removeEntry\<close> on the entries
  it selects.
\<close>

type_synonym file_index = "(string \<times> entry) list"

definition getEntry :: "file_index \<Rightarrow> string \<Rightarrow> entry option" where
  "getEntry idx p = map_of idx p"

definition addEntry :: "entry \<Rightarrow> file_index \<Rightarrow> file_index" where
  "addEntry e idx = AList.update (fullPath e) e idx"

definition visitAll :: "(entry \<Rightarrow> entry) \<Rightarrow> file_index \<Rightarrow> file_index" where
  "visitAll f idx = map (\<lambda>(p, e). (p, f e)) idx"

definition removeEntries :: "(entry \<Rightarrow> bool) \<Rightarrow> file_index \<Rightarrow> file_index" where
  "removeEntries doomed idx = filter (\<lambda>(p, e). \<not> doomed e) idx"

text \<open>
  What \<open>this.trigger(...)\<close> has dispatched, oldest first. The entry argument of a change
  event is an object reference (or \<open>null\<close>); \<open>added\<close> and \<open>removed\<close> are lists of
  references or \<open>undefined\<close>.
\<close>

datatype fs_event =
    ChangeEvent "nat option" "nat list option" "nat list option"
  | RenameEvent string string

text \<open>
  Modelled from the spec: \<open>WatchedRoot\<close> is not part of the sources at hand. A watched
  root holds its entry and its state, one of INACTIVE, STARTING and ACTIVE; \<open>rootId\<close> is
  the identity of the object. The filters handed to \<open>watch\<close> are stored in the object
  and not read by the functions below.
\<close>

datatype root_status = INACTIVE | STARTING | ACTIVE

record watched_root =
  rootId :: nat
  rootEntry :: entry
  status :: root_status

text \<open>A request in \<open>_watchRequests\<close>: the backend command and the path it is called on.\<close>

record watch_request =
  shouldWatch :: bool
  requestPath :: string

record filesystem =
  index :: file_index
  nextId :: nat
  events :: "fs_event list"
  watchedRoots :: "(string \<times> watched_root) list"
  watchRequests :: "watch_request list"

definition fireChangeEvent ::
  "nat option \<Rightarrow> nat list option \<Rightarrow> nat list option \<Rightarrow> filesystem \<Rightarrow> filesystem" where
  "fireChangeEvent e added removed fs = fs\<lparr>events := events fs @ [ChangeEvent e added removed]\<rparr>"


section \<open>Entry lookup (\_getProtocolAdapter, \_getEntryForPath, getFileForPath)\<close>

text \<open>
  A protocol adapter: \<open>canRead\<close> may be missing, and so may \<open>fileImpl\<close>. The argument of
  \<open>canRead\<close> is the file path or \<open>undefined\<close>.
\<close>

record adapter =
  priority :: int
  canRead :: "(string option \<Rightarrow> bool) option"
  hasFileImpl :: bool

text \<open>
  \<open>protocolAdapters\<close> is \<open>_fileProtocolPlugins[protocol] || []\<close>; the first adapter with
  a \<open>canRead\<close> that accepts the path is selected.
\<close>

definition getProtocolAdapter :: "adapter list \<Rightarrow> string option \<Rightarrow> adapter option" where
  "getProtocolAdapter protocolAdapters filePath =
     find (\<lambda>a. case canRead a of None \<Rightarrow> False | Some f \<Rightarrow> f filePath) protocolAdapters"

definition getEntryForPath ::
  "bool \<Rightarrow> entry_constructor \<Rightarrow> string \<Rightarrow> filesystem \<Rightarrow> fs_exception + (entry \<times> filesystem)" where
  "getEntryForPath normalizeUNCPaths EntryConstructor path0 fs =
     (case normalizePath normalizeUNCPaths path0 (EntryConstructor = Directory) of
        Inl ex \<Rightarrow> Inl ex
      | Inr p \<Rightarrow>
          (case getEntry (index fs) p of
             Some e \<Rightarrow> Inr (e, fs)
           | None \<Rightarrow>
               let e = newEntry EntryConstructor (nextId fs) p
               in Inr (e, fs\<lparr>index := addEntry e (index fs), nextId := nextId fs + 1\<rparr>)))"

text \<open>
  The surroundings of \<open>getFileForPath\<close> that are not part of the sources at hand are
  parameters: \<open>vfs\<close> is \<open>Phoenix.VFS.getPathForVirtualServingURL\<close> (an empty string
  counts as no result), \<open>protocolOf\<close> is \<open>PathUtils.parseUrl(path).protocol\<close> and
  \<open>plugins\<close> is the table \<open>_fileProtocolPlugins\<close>. The adapter is looked up with the
  protocol alone, so \<open>canRead\<close> receives \<open>undefined\<close>. An adapter with a \<open>fileImpl\<close>
  constructs a new object on every call, which is not put into the index.
\<close>

definition virtualPath :: "(string \<Rightarrow> string option) \<Rightarrow> string \<Rightarrow> string" where
  "virtualPath vfs path0 =
     (case vfs path0 of None \<Rightarrow> path0 | Some v \<Rightarrow> if v = [] then path0 else v)"

text \<open>\<open>protocolAdapter && protocolAdapter.fileImpl\<close>\<close>

definition usesFileImpl :: "adapter list \<Rightarrow> bool" where
  "usesFileImpl protocolAdapters =
     (case getProtocolAdapter protocolAdapters None of
        None \<Rightarrow> False
      | Some a \<Rightarrow> hasFileImpl a)"

definition getFileForPath ::
  "(string \<Rightarrow> string option) \<Rightarrow> (string \<Rightarrow> string) \<Rightarrow> (string \<Rightarrow> adapter list) \<Rightarrow> bool \<Rightarrow>
     string \<Rightarrow> filesystem \<Rightarrow> fs_exception + (entry \<times> filesystem)" where
  "getFileForPath vfs protocolOf plugins normalizeUNCPaths path0 fs =
     (let path1 = virtualPath vfs path0;
          protocol = protocolOf path1
      in if usesFileImpl (plugins protocol)
         then Inr (newEntry File (nextId fs) path1, fs\<lparr>nextId := nextId fs + 1\<rparr>)
         else getEntryForPath normalizeUNCPaths File path1 fs)"


section \<open>External changes (\_handleExternalChange)\<close>

text \<open>
  The three ways the function ends: it returns, it throws (from \<open>_normalizePath\<close>), or,
  for a directory entry, it hands over to \<open>_handleDirectoryChange(entry, ...)\<close>, whose
  first steps are methods of \<open>Directory\<close>.
\<close>

datatype external_change_result =
    Handled filesystem
  | Threw fs_exception
  | DirectoryChanged entry filesystem

text \<open>
  \<open>!path\<close> holds for \<open>null\<close>, \<open>undefined\<close> and the empty string: the wholesale change.
  For a file the test is
  \<open>!(stat && oldStat && stat.mtime.getTime() <= oldStat.mtime.getTime())\<close>, with
  \<open>upToDate\<close> the part under the negation; then \<open>entry._clearCachedData()\<close>,
  \<open>entry._stat = stat\<close> and the change event for the entry.
\<close>

definition wholesaleChange :: "filesystem \<Rightarrow> filesystem" where
  "wholesaleChange fs =
     fireChangeEvent None None None (fs\<lparr>index := visitAll clearCachedData (index fs)\<rparr>)"

definition upToDate :: "stats option \<Rightarrow> stats option \<Rightarrow> bool" where
  "upToDate stat0 oldStat =
     (case stat0 of
        None \<Rightarrow> False
      | Some st \<Rightarrow> (case oldStat of None \<Rightarrow> False | Some old \<Rightarrow> mtime st \<le> mtime old))"

definition handleExternalChange ::
  "bool \<Rightarrow> string option \<Rightarrow> stats option \<Rightarrow> filesystem \<Rightarrow> external_change_result" where
  "handleExternalChange normalizeUNCPaths path0 stat0 fs =
     (case path0 of
        None \<Rightarrow> Handled (wholesaleChange fs)
      | Some path1 \<Rightarrow>
          if path1 = [] then Handled (wholesaleChange fs)
          else
            (case normalizePath normalizeUNCPaths path1 False of
               Inl ex \<Rightarrow> Threw ex
             | Inr p \<Rightarrow>
                 (case getEntry (index fs) p of
                    None \<Rightarrow> Handled fs
                  | Some e \<Rightarrow>
                      let oldStat = entryStat e in
                      if isFile e then
                        (if \<not> upToDate stat0 oldStat
                         then Handled (fireChangeEvent (Some (ident e)) None None
                                (fs\<lparr>index := AList.update p
                                                  ((clearCachedData e)\<lparr>entryStat := stat0\<rparr>)
                                                  (index fs)\<rparr>))
                         else Handled fs)
                      else DirectoryChanged e fs)))"


section \<open>Watched roots (\_findWatchedRootForPath, watch, unwatch)\<close>

text \<open>
  Modelled from the spec: \<open>FileSystemError\<close> is not part of the sources at hand. The
  errors the code names, and any other error string as \<open>Message\<close>.
\<close>

datatype fs_error = NOT_FOUND | ROOT_NOT_WATCHED | TOO_MANY_ENTRIES | Message string

text \<open>What has become of a callback: not invoked so far, or invoked with an error or \<open>null\<close>.\<close>

datatype callback_state = Pending | Called "fs_error option"

text \<open>
  \<open>_watchedRoots\<close> is an object used as a dictionary. Its keys are paths, never array
  indices, so \<open>Object.keys\<close> lists them in the order of their first insertion: an
  association list, updated in place or extended at the end.
  \<open>fullPath.indexOf(watchedPath) === 0\<close> says that \<open>watchedPath\<close> is a prefix of
  \<open>fullPath\<close>; \<open>some\<close> stops at the first key for which this holds.
\<close>

definition findWatchedRootForPath :: "filesystem \<Rightarrow> string \<Rightarrow> watched_root option" where
  "findWatchedRootForPath fs p =
     map_option snd (find (\<lambda>(watchedPath, r). prefix watchedPath p) (watchedRoots fs))"

text \<open>
  \<open>_enqueueWatchRequest\<close>: the request joins the queue; the head of the queue is the
  request the backend is working on. \<open>_dequeueWatchRequest\<close> after a completion drops it.
\<close>

definition enqueueWatchRequest :: "watch_request \<Rightarrow> filesystem \<Rightarrow> filesystem" where
  "enqueueWatchRequest req fs = fs\<lparr>watchRequests := watchRequests fs @ [req]\<rparr>"

definition watchRequestCompleted :: "filesystem \<Rightarrow> filesystem" where
  "watchRequestCompleted fs = fs\<lparr>watchRequests := tl (watchRequests fs)\<rparr>"

text \<open>
  \<open>_watchOrUnwatchEntry\<close>: for an entry other than the root's own the callback is called at
  once with \<open>null\<close>; for the root a request goes to the backend.
\<close>

definition watchOrUnwatchEntry ::
  "entry \<Rightarrow> watched_root \<Rightarrow> bool \<Rightarrow> filesystem \<Rightarrow> callback_state \<times> filesystem" where
  "watchOrUnwatchEntry e watchedRoot sw fs =
     (if ident e \<noteq> ident (rootEntry watchedRoot) then (Called None, fs)
      else (Pending, enqueueWatchRequest \<lparr>shouldWatch = sw, requestPath = fullPath e\<rparr> fs))"

text \<open>Writing the \<open>status\<close> field of a WatchedRoot object, wherever the table holds it.\<close>

definition setRootStatus ::
  "nat \<Rightarrow> root_status \<Rightarrow> (string \<times> watched_root) list \<Rightarrow> (string \<times> watched_root) list" where
  "setRootStatus rid st roots =
     map (\<lambda>(p, r). (p, if rootId r = rid then r\<lparr>status := st\<rparr> else r)) roots"

text \<open>The function that \<open>watch\<close> passes to \<open>_watchEntry\<close>, run when the watch has completed.\<close>

definition watchCallback ::
  "string \<Rightarrow> nat \<Rightarrow> fs_error option \<Rightarrow> filesystem \<Rightarrow> callback_state \<times> filesystem" where
  "watchCallback p rid err fs =
     (case err of
        Some e \<Rightarrow> (Called (Some e), fs\<lparr>watchedRoots := AList.delete p (watchedRoots fs)\<rparr>)
      | None \<Rightarrow> (Called None, fs\<lparr>watchedRoots := setRootStatus rid ACTIVE (watchedRoots fs)\<rparr>))"

text \<open>
  \<open>watchingChildRoot\<close> is the result of \<open>Array.prototype.some\<close>, a boolean. Reading
  \<open>.status\<close> of a boolean gives \<open>undefined\<close>, which is none of the three states.
\<close>

definition booleanStatus :: "bool \<Rightarrow> root_status option" where
  "booleanStatus b = None"

definition watch :: "entry \<Rightarrow> filesystem \<Rightarrow> callback_state \<times> filesystem" where
  "watch e fs =
     (let p = fullPath e;
          watchingParentRoot = findWatchedRootForPath fs p
      in if (case watchingParentRoot of
               None \<Rightarrow> False
             | Some r \<Rightarrow> status r = STARTING \<or> status r = ACTIVE)
         then (Called (Some (Message ''A parent of this root is already watched'')), fs)
         else
           let watchingChildRoot =
                 list_ex (\<lambda>(path0, watchedRoot). prefix p (fullPath (rootEntry watchedRoot)))
                   (watchedRoots fs)
           in if watchingChildRoot \<and>
                 (booleanStatus watchingChildRoot = Some STARTING \<or>
                  booleanStatus watchingChildRoot = Some ACTIVE)
              then (Called (Some (Message ''A child of this root is already watched'')), fs)
              else
                let watchedRoot = \<lparr>rootId = nextId fs, rootEntry = e, status = STARTING\<rparr>;
                    fs1 = fs\<lparr>watchedRoots := AList.update p watchedRoot (watchedRoots fs),
                             nextId := nextId fs + 1\<rparr>
                in (case watchOrUnwatchEntry e watchedRoot True fs1 of
                      (Called err, fs2) \<Rightarrow> watchCallback p (rootId watchedRoot) err fs2
                    | (Pending, fs2) \<Rightarrow> (Pending, fs2)))"

text \<open>
  The function that \<open>unwatch\<close> passes on, wrapped by \<open>_unwatchEntry\<close>: cached data below
  the entry is cleared, the root leaves the table and the entries below it leave the
  index.
\<close>

definition unwatchCallback ::
  "entry \<Rightarrow> fs_error option \<Rightarrow> filesystem \<Rightarrow> callback_state \<times> filesystem" where
  "unwatchCallback e err fs =
     (let cleared = visitAll (\<lambda>child. if prefix (fullPath e) (fullPath child)
                                       then clearCachedData child else child) (index fs)
      in (Called err,
          fs\<lparr>index := removeEntries (\<lambda>child. prefix (fullPath e) (fullPath child)) cleared,
             watchedRoots := AList.delete (fullPath e) (watchedRoots fs)\<rparr>))"

definition unwatch :: "entry \<Rightarrow> filesystem \<Rightarrow> callback_state \<times> filesystem" where
  "unwatch e fs =
     (case map_of (watchedRoots fs) (fullPath e) of
        None \<Rightarrow> (Called (Some ROOT_NOT_WATCHED), fs)
      | Some watchedRoot \<Rightarrow>
          let fs1 = fs\<lparr>watchedRoots :=
                         setRootStatus (rootId watchedRoot) INACTIVE (watchedRoots fs)\<rparr>
          in (case watchOrUnwatchEntry e watchedRoot False fs1 of
                (Called err, fs2) \<Rightarrow> unwatchCallback e err fs2
              | (Pending, fs2) \<Rightarrow> (Pending, fs2)))"


section \<open>Free paths (\_getNewPath, getFreePath)\<close>

text \<open>
  The path library of the backend (\<open>this._impl.pathLib\<close>) is not part of the sources at
  hand: its five functions are parameters.
\<close>

record path_lib =
  pl_normalize :: "string \<Rightarrow> string"
  pl_dirname :: "string \<Rightarrow> string"
  pl_extname :: "string \<Rightarrow> string"
  pl_basename :: "string \<Rightarrow> string \<Rightarrow> string"
  pl_join :: "string \<Rightarrow> string \<Rightarrow> string"

text \<open>The decimal digits of a number, as a template literal prints it.\<close>

definition digitChar :: "nat \<Rightarrow> char" where
  "digitChar d = ''0123456789'' ! d"

function showNat :: "nat \<Rightarrow> string" where
  "showNat n = (if n < 10 then [digitChar n] else showNat (n div 10) @ [digitChar (n mod 10)])"
  by pat_completeness auto
termination
  by (relation "measure id") auto

definition getNewPath :: "path_lib \<Rightarrow> string \<Rightarrow> bool \<Rightarrow> nat \<Rightarrow> string" where
  "getNewPath pathLib suggestedPath isDir i =
     (let suggested = pl_normalize pathLib suggestedPath
      in if isDir then suggested @ '' (copy '' @ showNat i @ '')''
         else
           let dir = pl_dirname pathLib suggested;
               extName = pl_extname pathLib suggested;
               baseName = pl_basename pathLib suggested extName
           in pl_join pathLib dir (baseName @ ''(copy '' @ showNat i @ '')'' @ extName))"

definition MAX_DEDUPE_NUMBER :: nat where
  "MAX_DEDUPE_NUMBER = 1000"

text \<open>
  What the callback of \<open>getFreePath\<close> receives: an error or \<open>null\<close>, and a path or
  nothing. \<open>existsAsync\<close> is the backend's promise: \<open>Some b\<close> when it resolves to \<open>b\<close>,
  \<open>None\<close> when it rejects; then the \<open>await\<close> throws inside the \<open>async\<close> function and the
  callback is never invoked, which is the result \<open>None\<close> of the loop.
\<close>

type_synonym free_path_result = "fs_error option \<times> string option"

function probeNewPaths ::
  "(string \<Rightarrow> bool option) \<Rightarrow> path_lib \<Rightarrow> string \<Rightarrow> bool \<Rightarrow> nat \<Rightarrow> free_path_result option" where
  "probeNewPaths existsAsync pathLib suggestedPath isDir i =
     (if i < MAX_DEDUPE_NUMBER then
        (let newPath = getNewPath pathLib suggestedPath isDir i
         in case existsAsync newPath of
              None \<Rightarrow> None
            | Some exists \<Rightarrow>
                if \<not> exists then Some (None, Some newPath)
                else probeNewPaths existsAsync pathLib suggestedPath isDir (i + 1))
      else Some (Some TOO_MANY_ENTRIES, None))"
  by pat_completeness auto
termination
  by (relation "measure (\<lambda>(existsAsync, pathLib, suggestedPath, isDir, i). MAX_DEDUPE_NUMBER - i)")
    auto

declare probeNewPaths.simps [simp del]

text \<open>
  \<open>implStat\<close> is what the backend's \<open>stat\<close> passes to its callback for the path: an error
  or \<open>null\<close>, and a stat object or nothing.
\<close>

definition getFreePath ::
  "(string \<Rightarrow> fs_error option \<times> stats option) \<Rightarrow> (string \<Rightarrow> bool option) \<Rightarrow> path_lib \<Rightarrow>
     string \<Rightarrow> free_path_result option" where
  "getFreePath implStat existsAsync pathLib suggestedPath =
     (case implStat suggestedPath of
        (err, Some st) \<Rightarrow> probeNewPaths existsAsync pathLib suggestedPath (isDirectory st) 1
      | (err, None) \<Rightarrow>
          if err = Some NOT_FOUND then Some (None, Some suggestedPath)
          else Some (err, None))"


section \<open>Directory changes (\_handleDirectoryChange, from the listing on)\<close>

text \<open>
  The function given to \<open>directory.getContents\<close>. \<open>oldContents\<close> is the listing cached
  before, if any; \<open>contents\<close> is the new listing, \<open>undefined\<close> when listing failed.
  Entries are compared by reference. \<open>filt r d\<close> is
  \<open>watchedRoot.filter(directory.name, directory.parentPath)\<close>.

  The closure holds the two difference lists and the counter; \<open>callbackCalls\<close> records
  every invocation of \<open>callback(addedEntries, removedEntries)\<close>. The sub-operations are
  the calls of \<open>_watchEntry\<close> and \<open>_unwatchEntry\<close>, each given \<open>watchOrUnwatchCallback\<close>.
\<close>

datatype sub_operation = WatchEntry entry | UnwatchEntry entry

record directory_change =
  addedEntries :: "entry list option"
  removedEntries :: "entry list option"
  counter :: int
  callbackCalls :: "(entry list option \<times> entry list option) list"

definition notIn :: "entry list \<Rightarrow> entry \<Rightarrow> bool" where
  "notIn es e \<longleftrightarrow> ident e \<notin> ident ` set es"

text \<open>\<open>contents.filter\<close> on \<open>undefined\<close> throws: \<open>None\<close>.\<close>

definition directoryDiff ::
  "entry list option \<Rightarrow> entry list option \<Rightarrow> (entry list option \<times> entry list option) option" where
  "directoryDiff oldContents contents =
     (case oldContents of
        None \<Rightarrow> Some (None, None)
      | Some old \<Rightarrow>
          (case contents of
             None \<Rightarrow> None
           | Some new \<Rightarrow> Some (Some (filter (notIn old) new), Some (filter (notIn new) old))))"

definition listLength :: "entry list option \<Rightarrow> int" where
  "listLength es = (case es of None \<Rightarrow> 0 | Some xs \<Rightarrow> int (length xs))"

definition listEntries :: "entry list option \<Rightarrow> entry list" where
  "listEntries es = (case es of None \<Rightarrow> [] | Some xs \<Rightarrow> xs)"

text \<open>
  In the branch of a directory that is not watched the counter is never assigned; it is
  \<open>0\<close> here.
\<close>

definition handleDirectoryChangeListed ::
  "(watched_root \<Rightarrow> entry \<Rightarrow> bool) \<Rightarrow> entry \<Rightarrow> entry list option \<Rightarrow> entry list option \<Rightarrow>
     filesystem \<Rightarrow> (directory_change \<times> sub_operation list \<times> filesystem) option" where
  "handleDirectoryChangeListed filt directory oldContents contents fs =
     (case directoryDiff oldContents contents of
        None \<Rightarrow> None
      | Some (added, removed) \<Rightarrow>
          let watchedRoot = findWatchedRootForPath fs (fullPath directory)
          in if (case watchedRoot of None \<Rightarrow> True | Some r \<Rightarrow> \<not> filt r directory)
             then Some (\<lparr>addedEntries = added, removedEntries = removed, counter = 0,
                          callbackCalls = [(added, removed)]\<rparr>,
                        [],
                        fs\<lparr>index := visitAll
                              (\<lambda>e. if prefix (fullPath directory) (fullPath e)
                                    then clearCachedData e else e) (index fs)\<rparr>)
             else
               let addedCounter = listLength added;
                   removedCounter = listLength removed;
                   n = addedCounter + removedCounter
               in if n = 0
                  then Some (\<lparr>addedEntries = added, removedEntries = removed, counter = n,
                               callbackCalls = [(added, removed)]\<rparr>, [], fs)
                  else Some (\<lparr>addedEntries = added, removedEntries = removed, counter = n,
                               callbackCalls = []\<rparr>,
                             map WatchEntry (listEntries added) @
                             map UnwatchEntry (listEntries removed),
                             fs))"

text \<open>
  \<open>watchOrUnwatchCallback\<close>: an error is written to the console; \<open>--counter === 0\<close>
  decides whether the callback runs.
\<close>

definition watchOrUnwatchCallback :: "fs_error option \<Rightarrow> directory_change \<Rightarrow> directory_change" where
  "watchOrUnwatchCallback err dc =
     (let dc1 = dc\<lparr>counter := counter dc - 1\<rparr>
      in if counter dc1 = 0
         then dc1\<lparr>callbackCalls := callbackCalls dc1 @ [(addedEntries dc1, removedEntries dc1)]\<rparr>
         else dc1)"

text \<open>Sub-operations completing one after the other, each with its error or \<open>null\<close>.\<close>

fun completeAll :: "(sub_operation \<times> fs_error option) list \<Rightarrow> directory_change \<Rightarrow> directory_change" where
  "completeAll [] dc = dc"
| "completeAll ((operation, err) # rest) dc = completeAll rest (watchOrUnwatchCallback err dc)"


section \<open>A path library for examples\<close>

text \<open>
  An instance of \<open>path_lib\<close> on which the examples are evaluated: what the POSIX
  functions \<open>normalize\<close>, \<open>dirname\<close>, \<open>extname\<close>, \<open>basename\<close> and \<open>join\<close> of a
  Node-style path module give on absolute paths without \<open>.\<close> and \<open>..\<close> segments and
  without a trailing slash.
\<close>

definition posixBasename :: "string \<Rightarrow> string \<Rightarrow> string" where
  "posixBasename p ext =
     (let b = last (splitSlash p)
      in if ext \<noteq> [] \<and> ext \<noteq> b \<and> suffix ext b then take (length b - length ext) b else b)"

definition posixExtname :: "string \<Rightarrow> string" where
  "posixExtname p =
     (let b = last (splitSlash p);
          ext = CHR ''.'' # rev (takeWhile (\<lambda>c. c \<noteq> CHR ''.'') (rev b))
      in if CHR ''.'' \<notin> set b \<or> length ext = length b then [] else ext)"

definition posixDirname :: "string \<Rightarrow> string" where
  "posixDirname p =
     (let d = joinSlash (butlast (splitSlash p)) in if d = [] then ''/'' else d)"

definition posixPathLib :: path_lib where
  "posixPathLib =
     \<lparr>pl_normalize = removeDuplicatedSlashes,
      pl_dirname = posixDirname,
      pl_extname = posixExtname,
      pl_basename = posixBasename,
      pl_join = (\<lambda>d f. removeDuplicatedSlashes (d @ ''/'' @ f))\<rparr>"

section \<open>Properties of path normalization\<close>

subsection \<open>Runs of slashes\<close>

lemma removeDuplicatedSlashes_Cons:
  "\<exists>t. removeDuplicatedSlashes (b # cs) = b # t"
  by (induction "b # cs" arbitrary: b cs rule: removeDuplicatedSlashes.induct) auto

lemma removeDuplicatedSlashes_clean: "\<not> hasDuplicatedSlash (removeDuplicatedSlashes s)"
proof (induction s rule: removeDuplicatedSlashes.induct)
  case (1 a b cs)
  obtain t where t: "removeDuplicatedSlashes (b # cs) = b # t"
    using removeDuplicatedSlashes_Cons by blast
  show ?case
  proof (cases "a = CHR ''/'' \<and> b = CHR ''/''")
    case True
    then show ?thesis using 1 by simp
  next
    case False
    then have "\<not> hasDuplicatedSlash (removeDuplicatedSlashes (b # cs))" using 1 by simp
    then show ?thesis using False t by auto
  qed
qed simp_all

lemma removeDuplicatedSlashes_id:
  "\<not> hasDuplicatedSlash s \<Longrightarrow> removeDuplicatedSlashes s = s"
  by (induction s rule: removeDuplicatedSlashes.induct) auto

lemma startsWithDuplicatedSlash_has:
  "startsWithDuplicatedSlash s \<Longrightarrow> hasDuplicatedSlash s"
  by (cases s rule: startsWithDuplicatedSlash.cases) auto

lemma single_duplicated:
  "hasDuplicatedSlash (a # v) \<longleftrightarrow>
     hasDuplicatedSlash v \<or> (v \<noteq> [] \<and> a = CHR ''/'' \<and> hd v = CHR ''/'')"
  by (cases v) auto

lemma hasDuplicatedSlash_append:
  "hasDuplicatedSlash (u @ v) \<longleftrightarrow>
     hasDuplicatedSlash u \<or> hasDuplicatedSlash v \<or>
     (u \<noteq> [] \<and> v \<noteq> [] \<and> last u = CHR ''/'' \<and> hd v = CHR ''/'')"
proof (induction u)
  case Nil
  then show ?case by simp
next
  case (Cons a u)
  show ?case
  proof (cases u)
    case Nil
    then show ?thesis using single_duplicated [of a v] by simp
  next
    case (Cons b w)
    then show ?thesis using Cons.IH by auto
  qed
qed

lemma last_removeDuplicatedSlashes: "last (removeDuplicatedSlashes s) = last s"
proof (induction s rule: removeDuplicatedSlashes.induct)
  case (1 a b cs)
  obtain t where t: "removeDuplicatedSlashes (b # cs) = b # t"
    using removeDuplicatedSlashes_Cons by blast
  show ?case using 1 t by auto
qed simp_all

lemma removeDuplicatedSlashes_Nil: "removeDuplicatedSlashes s = [] \<longleftrightarrow> s = []"
  using removeDuplicatedSlashes_Cons by (cases s) (auto, metis list.distinct(1))

lemma containsDotDot_removeDuplicatedSlashes:
  "containsDotDot (removeDuplicatedSlashes s) = containsDotDot s"
proof (induction s rule: removeDuplicatedSlashes.induct)
  case (1 a b cs)
  obtain t where t: "removeDuplicatedSlashes (b # cs) = b # t"
    using removeDuplicatedSlashes_Cons by blast
  show ?case using 1 t by auto
qed simp_all

subsection \<open>Splitting and joining\<close>

lemma splitSlash_not_Nil [simp]: "splitSlash s \<noteq> []"
  by (induction s) (auto split: list.splits)

lemma joinSlash_Cons: "joinSlash (x # xs) = x @ (if xs = [] then [] else CHR ''/'' # joinSlash xs)"
  by (cases xs) simp_all

lemma joinSlash_splitSlash: "joinSlash (splitSlash s) = s"
proof (induction s)
  case Nil
  then show ?case by simp
next
  case (Cons c cs)
  obtain seg segs where sp: "splitSlash cs = seg # segs"
    by (cases "splitSlash cs") simp_all
  show ?case using Cons sp by (simp add: joinSlash_Cons)
qed

lemma splitSlash_slash_free: "x \<in> set (splitSlash s) \<Longrightarrow> CHR ''/'' \<notin> set x"
proof (induction s arbitrary: x)
  case Nil
  then show ?case by simp
next
  case (Cons c cs)
  obtain seg segs where sp: "splitSlash cs = seg # segs"
    by (cases "splitSlash cs") simp_all
  show ?case using Cons sp by (auto split: if_splits)
qed

lemma splitSlash_append_slash:
  "splitSlash (s @ CHR ''/'' # t) = splitSlash s @ splitSlash t"
proof (induction s)
  case Nil
  then show ?case by simp
next
  case (Cons c cs)
  obtain seg segs where sp: "splitSlash cs = seg # segs"
    by (cases "splitSlash cs") simp_all
  show ?case using Cons sp by simp
qed

lemma splitSlash_segment: "CHR ''/'' \<notin> set x \<Longrightarrow> splitSlash x = [x]"
  by (induction x) auto

lemma splitSlash_joinSlash:
  "segs \<noteq> [] \<Longrightarrow> (\<forall>x\<in>set segs. CHR ''/'' \<notin> set x) \<Longrightarrow> splitSlash (joinSlash segs) = segs"
proof (induction segs rule: joinSlash.induct)
  case 1
  then show ?case by simp
next
  case (2 seg)
  then show ?case by (simp add: splitSlash_segment)
next
  case (3 seg v va)
  then show ?case by (simp add: splitSlash_append_slash splitSlash_segment)
qed

lemma joinSlash_append:
  "xs \<noteq> [] \<Longrightarrow> ys \<noteq> [] \<Longrightarrow> joinSlash (xs @ ys) = joinSlash xs @ CHR ''/'' # joinSlash ys"
proof (induction xs rule: joinSlash.induct)
  case 1
  then show ?case by simp
next
  case (2 seg)
  then show ?case by (cases ys) simp_all
next
  case (3 seg v va)
  then show ?case by simp
qed

lemma hd_splitSlash_slash: "splitSlash (CHR ''/'' # s) = [] # splitSlash s"
  by simp

subsection \<open>The loop over the segments\<close>

lemma splice_parts:
  assumes "2 \<le> i" "i < length segs"
  shows "segs = take (i - 1) segs @ [segs ! (i - 1), segs ! i] @ drop (i + 1) segs"
proof -
  have "drop (i - 1) segs = segs ! (i - 1) # drop i segs"
    using assms Cons_nth_drop_Suc [of "i - 1" segs] by simp
  moreover have "drop i segs = segs ! i # drop (i + 1) segs"
    using assms by (simp add: Cons_nth_drop_Suc)
  ultimately have "drop (i - 1) segs = [segs ! (i - 1), segs ! i] @ drop (i + 1) segs"
    by simp
  then show ?thesis
    by (metis append_take_drop_id)
qed

lemma splice_clean:
  assumes "2 \<le> i" "i < length segs" "\<not> hasDuplicatedSlash (joinSlash segs)"
  shows "\<not> hasDuplicatedSlash (joinSlash (take (i - 1) segs @ drop (i + 1) segs))"
proof -
  let ?A = "take (i - 1) segs" and ?M = "[segs ! (i - 1), segs ! i]" and ?B = "drop (i + 1) segs"
  have A: "?A \<noteq> []" using assms by auto
  have segs: "segs = ?A @ ?M @ ?B" using splice_parts [OF assms(1,2)] .
  show ?thesis
  proof (cases "?B = []")
    case True
    have "joinSlash segs = joinSlash ?A @ CHR ''/'' # joinSlash ?M"
      using segs True A joinSlash_append [of ?A ?M] by simp
    then have "\<not> hasDuplicatedSlash (joinSlash ?A)"
      using assms(3) by (simp add: hasDuplicatedSlash_append)
    then show ?thesis using True by simp
  next
    case False
    have mb: "joinSlash (?M @ ?B) = joinSlash ?M @ CHR ''/'' # joinSlash ?B"
      using False by (intro joinSlash_append) simp_all
    have "joinSlash segs = joinSlash ?A @ CHR ''/'' # joinSlash (?M @ ?B)"
      using A joinSlash_append [of ?A "?M @ ?B"] segs by simp
    then have whole: "joinSlash segs =
        joinSlash ?A @ ((CHR ''/'' # joinSlash ?M) @ (CHR ''/'' # joinSlash ?B))"
      using mb by simp
    have a: "\<not> hasDuplicatedSlash (joinSlash ?A)"
      and edge: "\<not> (joinSlash ?A \<noteq> [] \<and> last (joinSlash ?A) = CHR ''/'')"
      and rest: "\<not> hasDuplicatedSlash ((CHR ''/'' # joinSlash ?M) @ (CHR ''/'' # joinSlash ?B))"
      using assms(3) unfolding whole hasDuplicatedSlash_append [of "joinSlash ?A"] by auto
    have b: "\<not> hasDuplicatedSlash (CHR ''/'' # joinSlash ?B)"
      using rest unfolding hasDuplicatedSlash_append [of "CHR ''/'' # joinSlash ?M"] by simp
    have "joinSlash (?A @ ?B) = joinSlash ?A @ (CHR ''/'' # joinSlash ?B)"
      using A False by (intro joinSlash_append)
    then show ?thesis
      using a b edge by (simp add: hasDuplicatedSlash_append)
  qed
qed

lemma removeDotDotSegments_result:
  "removeDotDotSegments segs i = Some out \<Longrightarrow> 1 \<le> i \<Longrightarrow> segs \<noteq> [] \<Longrightarrow>
   out \<noteq> [] \<and> hd out = hd segs \<and> set out \<subseteq> set segs \<and>
   (\<not> hasDuplicatedSlash (joinSlash segs) \<longrightarrow> \<not> hasDuplicatedSlash (joinSlash out))"
proof (induction segs i rule: removeDotDotSegments.induct)
  case (1 segments i)
  show ?case
  proof (cases "i < length segments")
    case False
    then show ?thesis using "1.prems" by (simp add: removeDotDotSegments.simps)
  next
    case inside: True
    show ?thesis
    proof (cases "segments ! i = ''..''")
      case False
      then have "removeDotDotSegments segments (i + 1) = Some out"
        using "1.prems"(1) inside by (subst (asm) removeDotDotSegments.simps) simp
      then show ?thesis using "1.IH"(2) [OF inside False] "1.prems" by simp
    next
      case True
      have i2: "\<not> i < 2"
        using "1.prems"(1) inside True by (subst (asm) removeDotDotSegments.simps) (auto split: if_splits)
      let ?s = "take (i - 1) segments @ drop (i + 1) segments"
      have call: "removeDotDotSegments ?s (i - 1) = Some out"
        using "1.prems"(1) inside True i2 by (subst (asm) removeDotDotSegments.simps) simp
      have ne: "?s \<noteq> []" using "1.prems"(3) i2 by auto
      have hd: "hd ?s = hd segments" using i2 inside by (cases segments) (auto simp: take_Cons')
      have sub: "set ?s \<subseteq> set segments"
        by (auto dest: in_set_takeD in_set_dropD)
      have clean: "\<not> hasDuplicatedSlash (joinSlash segments) \<Longrightarrow> \<not> hasDuplicatedSlash (joinSlash ?s)"
        using splice_clean [of i segments] i2 inside by simp
      have "1 \<le> i - 1" using i2 by simp
      from "1.IH"(1) [OF inside True i2 call this ne] hd sub clean
      show ?thesis by auto
    qed
  qed
qed


lemma removeDotDotSegments_removes_all:
  "removeDotDotSegments segs i = Some out \<Longrightarrow>
   (\<forall>j. 1 \<le> j \<and> j < i \<and> j < length segs \<longrightarrow> segs ! j \<noteq> ''..'') \<Longrightarrow>
   noDotDotSegment out"
proof (induction segs i rule: removeDotDotSegments.induct)
  case (1 segments i)
  show ?case
  proof (cases "i < length segments")
    case False
    then show ?thesis using "1.prems"
      by (simp add: removeDotDotSegments.simps noDotDotSegment_def)
  next
    case inside: True
    show ?thesis
    proof (cases "segments ! i = ''..''")
      case False
      then have call: "removeDotDotSegments segments (i + 1) = Some out"
        using "1.prems"(1) inside by (subst (asm) removeDotDotSegments.simps) simp
      have "\<forall>j. 1 \<le> j \<and> j < i + 1 \<and> j < length segments \<longrightarrow> segments ! j \<noteq> ''..''"
        using "1.prems"(2) False by (metis Suc_eq_plus1 less_Suc_eq)
      from "1.IH"(2) [OF inside False call this] show ?thesis .
    next
      case True
      have i2: "\<not> i < 2"
        using "1.prems"(1) inside True by (subst (asm) removeDotDotSegments.simps) (auto split: if_splits)
      let ?s = "take (i - 1) segments @ drop (i + 1) segments"
      have call: "removeDotDotSegments ?s (i - 1) = Some out"
        using "1.prems"(1) inside True i2 by (subst (asm) removeDotDotSegments.simps) simp
      have "\<forall>j. 1 \<le> j \<and> j < i - 1 \<and> j < length ?s \<longrightarrow> ?s ! j \<noteq> ''..''"
        using "1.prems"(2) inside by (auto simp: nth_append)
      from "1.IH"(1) [OF inside True i2 call this] show ?thesis .
    qed
  qed
qed

lemma removeDotDotSegments_fixed:
  "(\<forall>j. i \<le> j \<and> j < length segs \<longrightarrow> segs ! j \<noteq> ''..'') \<Longrightarrow>
   removeDotDotSegments segs i = Some segs"
proof (induction segs i rule: removeDotDotSegments.induct)
  case (1 segments i)
  show ?case
  proof (cases "i < length segments")
    case False
    then show ?thesis by (simp add: removeDotDotSegments.simps)
  next
    case True
    then have no: "segments ! i \<noteq> ''..''" using "1.prems" by simp
    have "removeDotDotSegments segments (i + 1) = Some segments"
      using "1.IH"(2) [OF True no] "1.prems" by simp
    then show ?thesis using True no by (subst removeDotDotSegments.simps) simp
  qed
qed

subsection \<open>Paths that normalization leaves alone\<close>

lemma containsDotDot_Cons: "containsDotDot cs \<Longrightarrow> containsDotDot (c # cs)"
  by (cases cs) simp_all

lemma splitSlash_head_char: "splitSlash cs = (a # x) # rest \<Longrightarrow> \<exists>t. cs = a # t"
  by (cases cs) (auto split: if_splits list.splits)

lemma dotdot_segment_contains: "''..'' \<in> set (splitSlash s) \<Longrightarrow> containsDotDot s"
proof (induction s)
  case Nil
  then show ?case by simp
next
  case (Cons c cs)
  obtain seg segs where sp: "splitSlash cs = seg # segs"
    by (cases "splitSlash cs") simp_all
  show ?case
  proof (cases "c = CHR ''/''")
    case True
    then have "''..'' \<in> set (splitSlash cs)" using Cons.prems by simp
    then show ?thesis using Cons.IH containsDotDot_Cons by blast
  next
    case False
    then have "''..'' = c # seg \<or> ''..'' \<in> set segs" using Cons.prems sp by auto
    then show ?thesis
    proof
      assume "''..'' = c # seg"
      then have c: "c = CHR ''.''" and seg: "seg = ''.''" by auto
      from sp seg obtain t where "cs = CHR ''.'' # t"
        using splitSlash_head_char by blast
      then show ?thesis using c by simp
    next
      assume "''..'' \<in> set segs"
      then have "''..'' \<in> set (splitSlash cs)" using sp by simp
      then show ?thesis using Cons.IH containsDotDot_Cons by blast
    qed
  qed
qed

lemma noDotDotSegment_plain:
  assumes "\<not> containsDotDot s"
  shows "noDotDotSegment (splitSlash s)"
  unfolding noDotDotSegment_def
proof (intro allI impI)
  fix j
  assume "1 \<le> j \<and> j < length (splitSlash s)"
  then have "splitSlash s ! j \<in> set (splitSlash s)" by simp
  then show "splitSlash s ! j \<noteq> ''..''"
    using assms dotdot_segment_contains by force
qed

text \<open>The step of \<open>_normalizePath\<close> that removes the \<open>..\<close> segments.\<close>

lemma dotdot_step_fixed:
  assumes "noDotDotSegment (splitSlash s)"
  shows "(if containsDotDot s
          then map_option joinSlash (removeDotDotSegments (splitSlash s) 1)
          else Some s) = Some s"
proof -
  have "removeDotDotSegments (splitSlash s) 1 = Some (splitSlash s)"
    using assms by (intro removeDotDotSegments_fixed) (simp add: noDotDotSegment_def)
  then show ?thesis by (simp add: joinSlash_splitSlash)
qed

lemma dotdot_step_result:
  assumes "\<not> hasDuplicatedSlash s"
    and "(if containsDotDot s
          then map_option joinSlash (removeDotDotSegments (splitSlash s) 1)
          else Some s) = Some m"
  shows "\<not> hasDuplicatedSlash m \<and> noDotDotSegment (splitSlash m) \<and>
     hd (splitSlash m) = hd (splitSlash s)"
proof (cases "containsDotDot s")
  case False
  then show ?thesis using assms noDotDotSegment_plain by simp
next
  case True
  then obtain out where out: "removeDotDotSegments (splitSlash s) 1 = Some out"
    and m: "m = joinSlash out"
    using assms(2) by auto
  have res: "out \<noteq> []" "hd out = hd (splitSlash s)" "set out \<subseteq> set (splitSlash s)"
    "\<not> hasDuplicatedSlash (joinSlash out)"
    using removeDotDotSegments_result [OF out] assms(1) by (simp_all add: joinSlash_splitSlash)
  have "\<forall>x\<in>set out. CHR ''/'' \<notin> set x"
    using res(3) splitSlash_slash_free by blast
  then have undo: "splitSlash m = out"
    unfolding m using res(1) by (intro splitSlash_joinSlash)
  have "noDotDotSegment out"
    using removeDotDotSegments_removes_all [OF out] by simp
  then show ?thesis using undo res m by simp
qed

lemma ensureTrailingSlash_cases:
  "ensureTrailingSlash s = s \<and> s \<noteq> [] \<and> last s = CHR ''/'' \<or>
   ensureTrailingSlash s = s @ ''/'' \<and> (s = [] \<or> last s \<noteq> CHR ''/'')"
  by (auto simp: ensureTrailingSlash_def)

lemma ensureTrailingSlash_last:
  "ensureTrailingSlash s \<noteq> [] \<and> last (ensureTrailingSlash s) = CHR ''/''"
  by (auto simp: ensureTrailingSlash_def)

lemma ensureTrailingSlash_stable:
  assumes "\<not> hasDuplicatedSlash s" "noDotDotSegment (splitSlash s)"
  shows "\<not> hasDuplicatedSlash (ensureTrailingSlash s) \<and>
     noDotDotSegment (splitSlash (ensureTrailingSlash s)) \<and>
     hd (splitSlash (ensureTrailingSlash s)) = hd (splitSlash s)"
proof -
  consider "ensureTrailingSlash s = s"
    | "ensureTrailingSlash s = s @ ''/''" "s = [] \<or> last s \<noteq> CHR ''/''"
    using ensureTrailingSlash_cases by blast
  then show ?thesis
  proof cases
    case 1
    then show ?thesis using assms by simp
  next
    case 2
    have clean: "\<not> hasDuplicatedSlash (s @ ''/'')"
      using assms(1) 2(2) by (auto simp: hasDuplicatedSlash_append)
    have sp: "splitSlash (s @ ''/'') = splitSlash s @ [[]]"
      using splitSlash_append_slash [of s "[]"] by simp
    have "noDotDotSegment (splitSlash s @ [[]])"
      using assms(2) unfolding noDotDotSegment_def
      by (auto simp: nth_append)
    then show ?thesis using 2(1) clean sp by simp
  qed
qed

lemma isAbsolutePath_shape:
  "isAbsolutePath p \<longleftrightarrow>
     (\<exists>t. p = CHR ''/'' # t) \<or> (\<exists>c t. p = c # CHR '':'' # CHR ''/'' # t)"
proof (cases p)
  case Nil
  then show ?thesis by (simp add: isAbsolutePath_def charAt_def)
next
  case p1: (Cons a q)
  show ?thesis
  proof (cases q)
    case Nil
    then show ?thesis using p1 by (auto simp: isAbsolutePath_def charAt_def)
  next
    case q1: (Cons b r)
    show ?thesis
    proof (cases r)
      case Nil
      then show ?thesis using p1 q1 by (auto simp: isAbsolutePath_def charAt_def)
    next
      case (Cons c t)
      then show ?thesis using p1 q1 by (auto simp: isAbsolutePath_def charAt_def)
    qed
  qed
qed

text \<open>A path without runs of slashes and without \<open>..\<close> segments is a fixed point.\<close>

lemma normalizePath_fixed:
  assumes "isAbsolutePath s" "\<not> hasDuplicatedSlash s" "noDotDotSegment (splitSlash s)"
    and "d \<longrightarrow> s \<noteq> [] \<and> last s = CHR ''/''"
  shows "normalizePath unc s d = Inr s"
proof -
  have u: "\<not> startsWithDuplicatedSlash s"
    using assms(2) startsWithDuplicatedSlash_has by blast
  have r: "removeDuplicatedSlashes s = s"
    using assms(2) by (rule removeDuplicatedSlashes_id)
  have e: "d \<Longrightarrow> ensureTrailingSlash s = s"
    using assms(4) by (simp add: ensureTrailingSlash_def)
  show ?thesis
    using assms(1) u e
    by (simp add: normalizePath_def r dotdot_step_fixed [OF assms(3)])
qed

subsection \<open>Normalizing twice\<close>

lemma normalizePath_Inr:
  assumes "normalizePath unc p d = Inr n"
  obtains p2 where "isAbsolutePath p"
    and "(if containsDotDot (removeDuplicatedSlashes p)
          then map_option joinSlash
                 (removeDotDotSegments (splitSlash (removeDuplicatedSlashes p)) 1)
          else Some (removeDuplicatedSlashes p)) = Some p2"
    and "n = (if unc \<and> startsWithDuplicatedSlash p
              then CHR ''/'' # (if d then ensureTrailingSlash p2 else p2)
              else (if d then ensureTrailingSlash p2 else p2))"
  using assms
  by (auto simp: normalizePath_def Let_def split: if_splits option.splits)

lemma splitSlash_shape:
  "s = hd (splitSlash s) @
       (if tl (splitSlash s) = [] then [] else CHR ''/'' # joinSlash (tl (splitSlash s)))"
proof -
  obtain x xs where sp: "splitSlash s = x # xs"
    by (cases "splitSlash s") simp_all
  have "joinSlash (x # xs) = s" using joinSlash_splitSlash [of s] sp by simp
  then have "x @ (if xs = [] then [] else CHR ''/'' # joinSlash xs) = s"
    by (simp only: joinSlash_Cons)
  then show ?thesis unfolding sp by auto
qed

lemma head_segment_absolute:
  assumes "hd (splitSlash s) = [] \<or> (\<exists>c. hd (splitSlash s) = [c, CHR '':''])"
  shows "isAbsolutePath (ensureTrailingSlash s)"
proof -
  from assms consider "s = []" | t where "s = CHR ''/'' # t"
    | c where "s = [c, CHR '':'']" | c t where "s = c # CHR '':'' # CHR ''/'' # t"
    using splitSlash_shape [of s] by (auto split: if_splits)
  then show ?thesis
  proof cases
    case 1
    then show ?thesis by (simp add: ensureTrailingSlash_def isAbsolutePath_shape)
  next
    case 2
    then show ?thesis by (auto simp: ensureTrailingSlash_def isAbsolutePath_shape)
  next
    case 3
    then show ?thesis by (simp add: ensureTrailingSlash_def isAbsolutePath_shape)
  next
    case 4
    then show ?thesis by (auto simp: ensureTrailingSlash_def isAbsolutePath_shape)
  qed
qed

lemma head_segment_of_absolute:
  assumes "isAbsolutePath p"
  shows "hd (splitSlash (removeDuplicatedSlashes p)) = [] \<or>
     (\<exists>c. hd (splitSlash (removeDuplicatedSlashes p)) = [c, CHR '':''])"
proof -
  from assms consider t where "p = CHR ''/'' # t"
    | c t where "p = c # CHR '':'' # CHR ''/'' # t" "c \<noteq> CHR ''/''"
    unfolding isAbsolutePath_shape by (metis)
  then show ?thesis
  proof cases
    case 1
    obtain t' where "removeDuplicatedSlashes p = CHR ''/'' # t'"
      using removeDuplicatedSlashes_Cons 1 by blast
    then show ?thesis by simp
  next
    case 2
    obtain t' where "removeDuplicatedSlashes (CHR ''/'' # t) = CHR ''/'' # t'"
      using removeDuplicatedSlashes_Cons by blast
    then have "removeDuplicatedSlashes p = c # CHR '':'' # CHR ''/'' # t'"
      using 2 by simp
    then show ?thesis using 2(2) by (simp split: list.splits)
  qed
qed

lemma slash_head:
  assumes "hd (splitSlash s) = []"
  shows "s = [] \<or> (\<exists>t. s = CHR ''/'' # t)"
  using splitSlash_shape [of s] assms by (auto split: if_splits)

lemma trailingSlashes_clean:
  assumes "\<not> hasDuplicatedSlash s" "s \<noteq> []" "last s = CHR ''/''"
  shows "trailingSlashes s = 1"
proof (cases "butlast s = []")
  case True
  then have "s = [CHR ''/'']" using assms(2,3) by (metis append_butlast_last_id append_Nil)
  then show ?thesis by (simp add: trailingSlashes_def)
next
  case False
  have s: "s = butlast (butlast s) @ [last (butlast s), CHR ''/'']"
    using assms(2,3) False by (metis append_butlast_last_id append.assoc append_Cons append_Nil)
  have "\<not> hasDuplicatedSlash [last (butlast s), CHR ''/'']"
    using assms(1) s hasDuplicatedSlash_append [of "butlast (butlast s)" "[last (butlast s), CHR ''/'']"]
    by simp
  then have "last (butlast s) \<noteq> CHR ''/''" by simp
  then show ?thesis
    by (subst s) (simp add: trailingSlashes_def)
qed

lemma trailingSlashes_Cons:
  assumes "trailingSlashes s < length s"
  shows "trailingSlashes (c # s) = trailingSlashes s"
proof -
  have some: "\<not> (\<forall>x\<in>set (rev s). x = CHR ''/'')"
  proof
    assume "\<forall>x\<in>set (rev s). x = CHR ''/''"
    then have "takeWhile (\<lambda>c. c = CHR ''/'') (rev s) = rev s"
      by (simp add: takeWhile_eq_all_conv)
    then have "length (takeWhile (\<lambda>c. c = CHR ''/'') (rev s)) = length (rev s)"
      by (rule arg_cong)
    moreover have "length (rev s) = length s" by (rule length_rev)
    moreover have "length (takeWhile (\<lambda>c. c = CHR ''/'') (rev s)) < length s"
      using assms unfolding trailingSlashes_def .
    ultimately show False by linarith
  qed
  have "takeWhile (\<lambda>c. c = CHR ''/'') (rev s @ [c]) = takeWhile (\<lambda>c. c = CHR ''/'') (rev s)"
    using some by (subst takeWhile_append) auto
  then show ?thesis by (simp add: trailingSlashes_def)
qed

lemma normalizePath_unc_prefix:
  assumes "\<not> hasDuplicatedSlash (CHR ''/'' # r)" "noDotDotSegment (splitSlash (CHR ''/'' # r))"
    and "d \<longrightarrow> last (CHR ''/'' # r) = CHR ''/''"
  shows "normalizePath True (CHR ''/'' # CHR ''/'' # r) d = Inr (CHR ''/'' # CHR ''/'' # r)"
proof -
  have r: "removeDuplicatedSlashes (CHR ''/'' # r) = CHR ''/'' # r"
    using assms(1) by (rule removeDuplicatedSlashes_id)
  have e: "d \<Longrightarrow> ensureTrailingSlash (CHR ''/'' # r) = CHR ''/'' # r"
    using assms(3) by (simp add: ensureTrailingSlash_def)
  have a: "isAbsolutePath (CHR ''/'' # CHR ''/'' # r)"
    by (simp add: isAbsolutePath_shape)
  show ?thesis
    using a e dotdot_step_fixed [OF assms(2)]
    by (cases d) (simp_all add: normalizePath_def Let_def r del: splitSlash.simps containsDotDot.simps)
qed

lemma normalizePath_root: "normalizePath unc ''/'' False = Inr ''/''"
  by (simp add: normalizePath_def isAbsolutePath_def charAt_def)

subsection \<open>The slash at the end\<close>

lemma endsWithSlash_append: "v \<noteq> [] \<Longrightarrow> endsWithSlash (u @ v) = endsWithSlash v"
  by (simp add: endsWithSlash_def)

lemma endsWithSlash_removeDuplicatedSlashes:
  "endsWithSlash (removeDuplicatedSlashes s) = endsWithSlash s"
  by (simp add: endsWithSlash_def removeDuplicatedSlashes_Nil last_removeDuplicatedSlashes)

lemma splice_ends:
  assumes "2 \<le> i" "i < length segs" "segs ! i = ''..''"
    and "\<not> hasDuplicatedSlash (joinSlash segs)"
  shows "endsWithSlash (joinSlash (take (i - 1) segs @ drop (i + 1) segs)) =
     endsWithSlash (joinSlash segs)"
proof -
  let ?A = "take (i - 1) segs" and ?M = "[segs ! (i - 1), segs ! i]" and ?B = "drop (i + 1) segs"
  have A: "?A \<noteq> []" using assms by auto
  have segs: "segs = ?A @ ?M @ ?B" using splice_parts [OF assms(1,2)] .
  have M: "joinSlash ?M = segs ! (i - 1) @ ''/..''" using assms(3) by simp
  show ?thesis
  proof (cases "?B = []")
    case True
    have whole: "joinSlash segs = joinSlash ?A @ (CHR ''/'' # joinSlash ?M)"
      using segs True A joinSlash_append [of ?A ?M] by simp
    have "\<not> (joinSlash ?A \<noteq> [] \<and> last (joinSlash ?A) = CHR ''/'')"
      using assms(4) unfolding whole hasDuplicatedSlash_append [of "joinSlash ?A"] by auto
    then have left: "\<not> endsWithSlash (joinSlash ?A)" by (simp add: endsWithSlash_def)
    have "\<not> endsWithSlash (joinSlash ?A @ (CHR ''/'' # joinSlash ?M))"
      unfolding M by (simp add: endsWithSlash_def)
    then have "\<not> endsWithSlash (joinSlash segs)" using whole by simp
    then show ?thesis using left True by simp
  next
    case False
    have mb: "joinSlash (?M @ ?B) = joinSlash ?M @ CHR ''/'' # joinSlash ?B"
      using False by (intro joinSlash_append) simp_all
    have "joinSlash segs = joinSlash ?A @ CHR ''/'' # joinSlash (?M @ ?B)"
      using A joinSlash_append [of ?A "?M @ ?B"] segs by simp
    then have whole: "joinSlash segs =
        (joinSlash ?A @ CHR ''/'' # joinSlash ?M) @ (CHR ''/'' # joinSlash ?B)"
      using mb by simp
    have w: "endsWithSlash (joinSlash segs) = endsWithSlash (CHR ''/'' # joinSlash ?B)"
      unfolding whole by (rule endsWithSlash_append) simp
    have "joinSlash (?A @ ?B) = joinSlash ?A @ (CHR ''/'' # joinSlash ?B)"
      using A False by (intro joinSlash_append)
    then have "endsWithSlash (joinSlash (?A @ ?B)) = endsWithSlash (CHR ''/'' # joinSlash ?B)"
      by (simp add: endsWithSlash_append)
    then show ?thesis using w by simp
  qed
qed

lemma removeDotDotSegments_ends:
  "removeDotDotSegments segs i = Some out \<Longrightarrow> 1 \<le> i \<Longrightarrow> segs \<noteq> [] \<Longrightarrow>
   \<not> hasDuplicatedSlash (joinSlash segs) \<Longrightarrow>
   endsWithSlash (joinSlash out) = endsWithSlash (joinSlash segs)"
proof (induction segs i rule: removeDotDotSegments.induct)
  case (1 segments i)
  show ?case
  proof (cases "i < length segments")
    case False
    then show ?thesis using "1.prems" by (simp add: removeDotDotSegments.simps)
  next
    case inside: True
    show ?thesis
    proof (cases "segments ! i = ''..''")
      case False
      then have "removeDotDotSegments segments (i + 1) = Some out"
        using "1.prems"(1) inside by (subst (asm) removeDotDotSegments.simps) simp
      then show ?thesis using "1.IH"(2) [OF inside False] "1.prems" by simp
    next
      case True
      have i2: "\<not> i < 2"
        using "1.prems"(1) inside True
        by (subst (asm) removeDotDotSegments.simps) (auto split: if_splits)
      let ?s = "take (i - 1) segments @ drop (i + 1) segments"
      have call: "removeDotDotSegments ?s (i - 1) = Some out"
        using "1.prems"(1) inside True i2 by (subst (asm) removeDotDotSegments.simps) simp
      have ne: "?s \<noteq> []" using "1.prems"(3) i2 by auto
      have clean: "\<not> hasDuplicatedSlash (joinSlash ?s)"
        using splice_clean [of i segments] i2 inside "1.prems"(4) by simp
      have ends: "endsWithSlash (joinSlash ?s) = endsWithSlash (joinSlash segments)"
        using splice_ends [of i segments] i2 inside True "1.prems"(4) by simp
      have "1 \<le> i - 1" using i2 by simp
      from "1.IH"(1) [OF inside True i2 call this ne clean] ends
      show ?thesis by simp
    qed
  qed
qed

lemma dotdot_step_ends:
  assumes "\<not> hasDuplicatedSlash s"
    and "(if containsDotDot s
          then map_option joinSlash (removeDotDotSegments (splitSlash s) 1)
          else Some s) = Some m"
  shows "endsWithSlash m = endsWithSlash s"
proof (cases "containsDotDot s")
  case False
  then show ?thesis using assms by simp
next
  case True
  then obtain out where out: "removeDotDotSegments (splitSlash s) 1 = Some out"
    and m: "m = joinSlash out"
    using assms(2) by auto
  show ?thesis
    using removeDotDotSegments_ends [OF out] assms(1) m by (simp add: joinSlash_splitSlash)
qed

text \<open>
  Claim C6, as amended. Let \<open>_normalizePath\<close> return \<open>n\<close> for the path \<open>p\<close>. If \<open>n\<close> is
  itself absolute, normalizing \<open>n\<close> again in the same mode returns \<open>n\<close>. In directory
  mode \<open>n\<close> is always absolute, so it is a fixed point; it ends with a slash, and with
  exactly one unless it is the UNC root \<open>//\<close>. In file mode no slash is added or taken
  away at the end: \<open>n\<close> ends with a slash exactly when \<open>p\<close> does, \<open>..\<close> segments or
  not; the one exception is a UNC path whose segments all cancel, for which \<open>n\<close> is
  \<open>/\<close>.
\<close>

theorem normalizePath_fixed_point_and_trailing_slash:
  assumes "normalizePath unc p d = Inr n"
  shows "(isAbsolutePath n \<longrightarrow> normalizePath unc n d = Inr n) \<and>
     (d \<longrightarrow> normalizePath unc n d = Inr n \<and> n \<noteq> [] \<and> last n = CHR ''/'' \<and>
           (trailingSlashes n = 1 \<or> n = ''//'')) \<and>
     (\<not> d \<longrightarrow>
        (endsWithSlash n \<longleftrightarrow>
           endsWithSlash p \<or> (unc \<and> startsWithDuplicatedSlash p \<and> n = ''/'')))"
proof -
  let ?p1 = "removeDuplicatedSlashes p"
  from assms obtain p2 where abs: "isAbsolutePath p"
    and step: "(if containsDotDot ?p1
          then map_option joinSlash (removeDotDotSegments (splitSlash ?p1) 1)
          else Some ?p1) = Some p2"
    and n: "n = (if unc \<and> startsWithDuplicatedSlash p
              then CHR ''/'' # (if d then ensureTrailingSlash p2 else p2)
              else (if d then ensureTrailingSlash p2 else p2))"
    by (rule normalizePath_Inr)
  let ?p3 = "if d then ensureTrailingSlash p2 else p2"
  have p2: "\<not> hasDuplicatedSlash p2" "noDotDotSegment (splitSlash p2)"
    "hd (splitSlash p2) = hd (splitSlash ?p1)"
    using dotdot_step_result [OF removeDuplicatedSlashes_clean step] by simp_all
  have p3: "\<not> hasDuplicatedSlash ?p3" "noDotDotSegment (splitSlash ?p3)"
    "hd (splitSlash ?p3) = hd (splitSlash ?p1)"
    using p2 ensureTrailingSlash_stable [OF p2(1,2)] by simp_all
  have p3d: "d \<longrightarrow> ?p3 \<noteq> [] \<and> last ?p3 = CHR ''/''"
    using ensureTrailingSlash_last by simp
  have heads: "hd (splitSlash ?p1) = [] \<or> (\<exists>c. hd (splitSlash ?p1) = [c, CHR '':''])"
    using head_segment_of_absolute [OF abs] .

  have idem: "normalizePath unc n d = Inr n" if "isAbsolutePath n"
  proof (cases "unc \<and> startsWithDuplicatedSlash p")
    case False
    then have "n = ?p3" using n by auto
    then show ?thesis
      using normalizePath_fixed [of ?p3 d unc] that p3 p3d by simp
  next
    case True
    then have n3: "n = CHR ''/'' # ?p3" using n by auto
    obtain t where "p = CHR ''/'' # CHR ''/'' # t"
      using True by (cases p rule: startsWithDuplicatedSlash.cases) auto
    then obtain t' where "?p1 = CHR ''/'' # t'"
      using removeDuplicatedSlashes_Cons by blast
    then have "hd (splitSlash ?p3) = []" using p3(3) by simp
    then consider "?p3 = []" | r where "?p3 = CHR ''/'' # r"
      using slash_head by blast
    then show ?thesis
    proof cases
      case 1
      then have "\<not> d" using p3d by auto
      then show ?thesis using n3 1 normalizePath_root by simp
    next
      case 2
      have "normalizePath True (CHR ''/'' # CHR ''/'' # r) d = Inr (CHR ''/'' # CHR ''/'' # r)"
        using p3 p3d unfolding 2 by (intro normalizePath_unc_prefix) simp_all
      then show ?thesis using n3 2 True by simp
    qed
  qed

  have dir: "normalizePath unc n d = Inr n \<and> n \<noteq> [] \<and> last n = CHR ''/'' \<and>
      (trailingSlashes n = 1 \<or> n = ''//'')" if d
  proof -
    have p3e: "?p3 = ensureTrailingSlash p2" using that by simp
    have a3: "isAbsolutePath ?p3"
      unfolding p3e using head_segment_absolute [of p2] heads p2(3) by simp
    have l3: "?p3 \<noteq> []" "last ?p3 = CHR ''/''" using p3d that by simp_all
    have t3: "trailingSlashes ?p3 = 1"
      using trailingSlashes_clean [OF p3(1) l3] .
    show ?thesis
    proof (cases "unc \<and> startsWithDuplicatedSlash p")
      case False
      then have "n = ?p3" using n by auto
      then show ?thesis using idem a3 l3 t3 by simp
    next
      case True
      then have n3: "n = CHR ''/'' # ?p3" using n by auto
      then have "isAbsolutePath n" by (simp add: isAbsolutePath_shape)
      then have i: "normalizePath unc n d = Inr n" by (rule idem)
      have l: "n \<noteq> []" "last n = CHR ''/''" using n3 l3 by simp_all
      have "trailingSlashes n = 1 \<or> n = ''//''"
      proof (cases "length ?p3 = 1")
        case True
        then have "?p3 = ''/''" using l3 by (cases ?p3) auto
        then show ?thesis using n3 by simp
      next
        case False
        then have "trailingSlashes ?p3 < length ?p3"
          using t3 l3(1) by (cases ?p3) auto
        then have "trailingSlashes n = trailingSlashes ?p3"
          unfolding n3 by (rule trailingSlashes_Cons)
        then show ?thesis using t3 by simp
      qed
      then show ?thesis using i l by simp
    qed
  qed

  have fmode: "endsWithSlash n \<longleftrightarrow>
      endsWithSlash p \<or> (unc \<and> startsWithDuplicatedSlash p \<and> n = ''/'')" if "\<not> d"
  proof -
    have e: "endsWithSlash p2 = endsWithSlash p"
      using dotdot_step_ends [OF removeDuplicatedSlashes_clean step]
      by (simp add: endsWithSlash_removeDuplicatedSlashes)
    show ?thesis
    proof (cases "unc \<and> startsWithDuplicatedSlash p")
      case False
      then have "n = p2" using n that by auto
      then show ?thesis using e False by auto
    next
      case True
      then have "n = CHR ''/'' # p2" using n that by auto
      then show ?thesis using e True by (cases p2) (auto simp: endsWithSlash_def)
    qed
  qed

  show ?thesis
  proof (intro conjI impI)
    assume "isAbsolutePath n"
    then show "normalizePath unc n d = Inr n" by (rule idem)
  next
    assume d
    then show "normalizePath unc n d = Inr n" "n \<noteq> []" "last n = CHR ''/''"
      "trailingSlashes n = 1 \<or> n = ''//''"
      using dir by simp_all
  next
    assume "\<not> d"
    then show "endsWithSlash n \<longleftrightarrow>
        endsWithSlash p \<or> (unc \<and> startsWithDuplicatedSlash p \<and> n = ''/'')"
      by (rule fmode)
  qed
qed

text \<open>
  Three normalizations: \<open>/a//b/../c\<close> as a directory gives \<open>/a/c/\<close>, which is
  absolute and a fixed point; as files, \<open>/a/b/../c/\<close> gives \<open>/a/c/\<close> and \<open>/a/b/../c\<close>
  gives \<open>/a/c\<close>, each ending as the given path does.
\<close>

theorem normalizePath_fixed_point_and_trailing_slash_witness:
  "normalizePath False ''/a//b/../c'' True = Inr ''/a/c/'' \<and>
   normalizePath False ''/a/c/'' True = Inr ''/a/c/'' \<and>
   trailingSlashes ''/a/c/'' = 1 \<and>
   normalizePath False ''/a/b/../c/'' False = Inr ''/a/c/'' \<and>
   isAbsolutePath ''/a/c/'' \<and>
   normalizePath False ''/a/c/'' False = Inr ''/a/c/'' \<and>
   endsWithSlash ''/a/c/'' \<and> endsWithSlash ''/a/b/../c/'' \<and>
   normalizePath False ''/a/b/../c'' False = Inr ''/a/c'' \<and>
   isAbsolutePath ''/a/c'' \<and>
   normalizePath False ''/a/c'' False = Inr ''/a/c'' \<and>
   \<not> endsWithSlash ''/a/c'' \<and> \<not> endsWithSlash ''/a/b/../c''"
proof -
  have dir: "normalizePath False ''/a//b/../c'' True = Inr ''/a/c/''"
    by (simp add: normalizePath_def isAbsolutePath_def charAt_def ensureTrailingSlash_def
        removeDotDotSegments.simps)
  have fil: "normalizePath False ''/a/b/../c/'' False = Inr ''/a/c/''"
    by (simp add: normalizePath_def isAbsolutePath_def charAt_def removeDotDotSegments.simps)
  have fil2: "normalizePath False ''/a/b/../c'' False = Inr ''/a/c''"
    by (simp add: normalizePath_def isAbsolutePath_def charAt_def removeDotDotSegments.simps)
  have a: "isAbsolutePath ''/a/c/''" "isAbsolutePath ''/a/c''"
    by (simp_all add: isAbsolutePath_def charAt_def)
  have e: "endsWithSlash ''/a/b/../c/''" "\<not> endsWithSlash ''/a/b/../c''"
    by (simp_all add: endsWithSlash_def)
  show ?thesis
    using normalizePath_fixed_point_and_trailing_slash [OF dir]
      normalizePath_fixed_point_and_trailing_slash [OF fil]
      normalizePath_fixed_point_and_trailing_slash [OF fil2] dir fil fil2 a e
    by simp
qed

text \<open>
  Claim C6 as it is stated fails in each of its three parts. In file mode \<open>/a/..\<close>, an
  absolute path, is normalized to the empty string, and normalizing that again throws
  instead of returning it. In file mode \<open>/a/\<close> keeps its trailing slash, and with UNC
  normalization \<open>//a/..\<close>, which has none, is normalized to \<open>/\<close>. With UNC
  normalization the directory \<open>//\<close> is normalized to \<open>//\<close>, which ends with two
  slashes.
\<close>

theorem normalizePath_claim_counterexample:
  "isAbsolutePath ''/a/..'' \<and>
   normalizePath False ''/a/..'' False = Inr [] \<and>
   normalizePath False [] False = Inl (PathsMustBeAbsolute []) \<and>
   normalizePath False ''/a/'' False = Inr ''/a/'' \<and>
   normalizePath True ''//a/..'' False = Inr ''/'' \<and>
   normalizePath True ''//'' True = Inr ''//'' \<and> trailingSlashes ''//'' = 2"
  by (simp add: normalizePath_def isAbsolutePath_def charAt_def ensureTrailingSlash_def
      removeDotDotSegments.simps trailingSlashes_def)


section \<open>Properties of the change barrier\<close>


lemma endChange_last:
  "activeChangeCount fs = 1 \<Longrightarrow> forEachChange h (externalChanges fs) (world fs) = Some w \<Longrightarrow>
   endChange h fs = Some (fs\<lparr>activeChangeCount := 0, externalChanges := [], world := w\<rparr>)"
  by (simp add: endChange_def triggerExternalChangesNow_def)

lemma endChange_nested:
  "activeChangeCount fs \<noteq> 1 \<Longrightarrow>
   endChange h fs = Some (fs\<lparr>activeChangeCount := activeChangeCount fs - 1\<rparr>)"
  by (simp add: endChange_def)

lemma forEachChange_throws_keeps_queue:
  "forEachChange h (externalChanges fs) (world fs) = None \<Longrightarrow>
   triggerExternalChangesNow h fs = None"
  by (simp add: triggerExternalChangesNow_def)



section \<open>Properties of external change handling\<close>

lemma visitAll_keys: "map fst (visitAll f idx) = map fst idx"
  by (induction idx) (auto simp: visitAll_def)

lemma visitAll_cleared:
  "list_all (\<lambda>(p, e). entryStat e = None \<and> fileContents e = None \<and> dirContents e = None)
     (visitAll clearCachedData idx)"
  by (induction idx) (auto simp: visitAll_def clearCachedData_def)

text \<open>
  Claim C7. \<open>_handleExternalChange(null, ...)\<close> is the wholesale change: every entry of
  the index stays in the index, as the same object, with its cached stat and contents
  cleared, and the event log grows by exactly one event, a change event whose entry
  argument is \<open>null\<close> (and whose added and removed lists are absent).
\<close>

theorem wholesale_change_clears_all_and_fires_once:
  "handleExternalChange unc None st fs = Handled (wholesaleChange fs) \<and>
   events (wholesaleChange fs) = events fs @ [ChangeEvent None None None] \<and>
   map fst (index (wholesaleChange fs)) = map fst (index fs) \<and>
   map (ident \<circ> snd) (index (wholesaleChange fs)) = map (ident \<circ> snd) (index fs) \<and>
   list_all (\<lambda>(p, e). entryStat e = None \<and> fileContents e = None \<and> dirContents e = None)
     (index (wholesaleChange fs))"
proof -
  have ids: "map (ident \<circ> snd) (visitAll clearCachedData idx) = map (ident \<circ> snd) idx" for idx
    by (induction idx) (auto simp: visitAll_def clearCachedData_def)
  show ?thesis
    by (simp add: handleExternalChange_def wholesaleChange_def fireChangeEvent_def
        visitAll_keys visitAll_cleared ids)
qed

lemma handleExternalChange_file:
  assumes "path0 \<noteq> []" "normalizePath unc path0 False = Inr p"
    "getEntry (index fs) p = Some e" "isFile e"
  shows "handleExternalChange unc (Some path0) st fs =
     (if upToDate st (entryStat e) then Handled fs
      else Handled (fs\<lparr>index := AList.update p
                          (e\<lparr>fileContents := None, dirContents := None, entryStat := st\<rparr>) (index fs),
                        events := events fs @ [ChangeEvent (Some (ident e)) None None]\<rparr>))"
  using assms
  by (simp add: handleExternalChange_def fireChangeEvent_def clearCachedData_def)

lemma upToDate_missing: "upToDate None old = False" "upToDate st None = False"
  by (simp_all add: upToDate_def split: option.splits)

text \<open>
  Claim C5. For a file entry found in the index under the normalized path, with a cached
  stat, an external change that comes with a stat: when the incoming \<open>mtime\<close> is not
  later than the cached one, nothing changes (no cached data cleared, no stat written, no
  event); when it is strictly later, the cached contents are cleared, the stat becomes
  the incoming one and one change event for the entry is fired.
\<close>

theorem stale_file_change_is_ignored:
  assumes "path0 \<noteq> []" "normalizePath unc path0 False = Inr p"
    "getEntry (index fs) p = Some e" "isFile e" "entryStat e = Some old"
  shows "(mtime st \<le> mtime old \<longrightarrow> handleExternalChange unc (Some path0) (Some st) fs = Handled fs) \<and>
     (mtime old < mtime st \<longrightarrow>
        handleExternalChange unc (Some path0) (Some st) fs =
          Handled (fs\<lparr>index := AList.update p
                          (e\<lparr>fileContents := None, dirContents := None, entryStat := Some st\<rparr>)
                          (index fs),
                      events := events fs @ [ChangeEvent (Some (ident e)) None None]\<rparr>))"
  using handleExternalChange_file [OF assms(1-4), of "Some st"] assms(5)
  by (auto simp: upToDate_def)


text \<open>
  An entry with \<open>mtime\<close> 10: a change with \<open>mtime\<close> 10 leaves the object as it is, a
  change with \<open>mtime\<close> 11 refreshes the entry.
\<close>

theorem stale_file_change_is_ignored_witness:
  "handleExternalChange False (Some ''/a//x.txt'') (Some \<lparr>isDirectory = False, mtime = 10\<rparr>)
     \<lparr>index = [(''/a/x.txt'',
         \<lparr>ident = 0, fullPath = ''/a/x.txt'', isFile = True,
          entryStat = Some \<lparr>isDirectory = False, mtime = 10\<rparr>,
          fileContents = Some ''text'', dirContents = None\<rparr>)],
      nextId = 1, events = [], watchedRoots = [], watchRequests = []\<rparr> =
   Handled
     \<lparr>index = [(''/a/x.txt'',
         \<lparr>ident = 0, fullPath = ''/a/x.txt'', isFile = True,
          entryStat = Some \<lparr>isDirectory = False, mtime = 10\<rparr>,
          fileContents = Some ''text'', dirContents = None\<rparr>)],
      nextId = 1, events = [], watchedRoots = [], watchRequests = []\<rparr> \<and>
   handleExternalChange False (Some ''/a//x.txt'') (Some \<lparr>isDirectory = False, mtime = 11\<rparr>)
     \<lparr>index = [(''/a/x.txt'',
         \<lparr>ident = 0, fullPath = ''/a/x.txt'', isFile = True,
          entryStat = Some \<lparr>isDirectory = False, mtime = 10\<rparr>,
          fileContents = Some ''text'', dirContents = None\<rparr>)],
      nextId = 1, events = [], watchedRoots = [], watchRequests = []\<rparr> =
   Handled
     \<lparr>index = [(''/a/x.txt'',
         \<lparr>ident = 0, fullPath = ''/a/x.txt'', isFile = True,
          entryStat = Some \<lparr>isDirectory = False, mtime = 11\<rparr>,
          fileContents = None, dirContents = None\<rparr>)],
      nextId = 1, events = [ChangeEvent (Some 0) None None], watchedRoots = [],
      watchRequests = []\<rparr>"
proof -
  let ?e = "\<lparr>ident = 0, fullPath = ''/a/x.txt'', isFile = True,
          entryStat = Some \<lparr>isDirectory = False, mtime = 10\<rparr>,
          fileContents = Some ''text'', dirContents = None\<rparr>"
  let ?fs = "\<lparr>index = [(''/a/x.txt'', ?e)],
      nextId = 1, events = [], watchedRoots = [], watchRequests = []\<rparr>"
  have n: "normalizePath False ''/a//x.txt'' False = Inr ''/a/x.txt''"
    by (simp add: normalizePath_def isAbsolutePath_def charAt_def)
  have g: "getEntry (index ?fs) ''/a/x.txt'' = Some ?e"
    by (simp add: getEntry_def)
  have ne: "''/a//x.txt'' \<noteq> []" by simp
  have f: "isFile ?e" by simp
  have o: "entryStat ?e = Some \<lparr>isDirectory = False, mtime = 10\<rparr>" by simp
  show ?thesis
    using stale_file_change_is_ignored [OF ne n g f o, of "\<lparr>isDirectory = False, mtime = 10\<rparr>"]
      stale_file_change_is_ignored [OF ne n g f o, of "\<lparr>isDirectory = False, mtime = 11\<rparr>"]
    by simp
qed

section \<open>Properties of the entry lookup\<close>

lemma getEntryForPath_found:
  "normalizePath unc path0 (c = Directory) = Inr n \<Longrightarrow> getEntry (index fs) n = Some e \<Longrightarrow>
   getEntryForPath unc c path0 fs = Inr (e, fs)"
  by (simp add: getEntryForPath_def)

lemma getEntryForPath_new:
  "normalizePath unc path0 (c = Directory) = Inr n \<Longrightarrow> getEntry (index fs) n = None \<Longrightarrow>
   getEntryForPath unc c path0 fs =
     Inr (newEntry c (nextId fs) n,
          fs\<lparr>index := addEntry (newEntry c (nextId fs) n) (index fs), nextId := nextId fs + 1\<rparr>)"
  by (simp add: getEntryForPath_def Let_def)

lemma getEntry_addEntry_same: "getEntry (addEntry e idx) (fullPath e) = Some e"
  by (simp add: getEntry_def addEntry_def update_conv')

lemma getEntry_addEntry_other: "k \<noteq> fullPath e \<Longrightarrow> getEntry (addEntry e idx) k = getEntry idx k"
  by (simp add: getEntry_def addEntry_def update_conv')

lemma distinct_addEntry: "distinct (map fst idx) \<Longrightarrow> distinct (map fst (addEntry e idx))"
  by (simp add: addEntry_def distinct_update)

lemma fullPath_newEntry: "fullPath (newEntry c i p) = p"
  by (simp add: newEntry_def)

lemma getFileForPath_local:
  "\<not> usesFileImpl (plugins (protocolOf (virtualPath vfs path0))) \<Longrightarrow>
   getFileForPath vfs protocolOf plugins unc path0 fs =
     getEntryForPath unc File (virtualPath vfs path0) fs"
  by (simp add: getFileForPath_def Let_def)

text \<open>
  Claim C2. For two paths that normalize to the same string (and for which no protocol
  adapter supplies its own constructor), \<open>getFileForPath\<close> called on the first and then
  on the second returns the same object both times, the one the index holds under the
  normalized path; the keys of the index stay pairwise distinct, and every entry that was
  in the index before is still there, unchanged.
\<close>

theorem getFileForPath_returns_the_indexed_entry:
  assumes "\<not> usesFileImpl (plugins (protocolOf (virtualPath vfs p)))"
    and "\<not> usesFileImpl (plugins (protocolOf (virtualPath vfs q)))"
    and "normalizePath unc (virtualPath vfs p) False = Inr n"
    and "normalizePath unc (virtualPath vfs q) False = Inr n"
    and "distinct (map fst (index fs))"
  shows "\<exists>e fs1. getFileForPath vfs protocolOf plugins unc p fs = Inr (e, fs1) \<and>
     getFileForPath vfs protocolOf plugins unc q fs1 = Inr (e, fs1) \<and>
     getEntry (index fs1) n = Some e \<and>
     distinct (map fst (index fs1)) \<and>
     (\<forall>k e'. getEntry (index fs) k = Some e' \<longrightarrow> getEntry (index fs1) k = Some e')"
proof (cases "getEntry (index fs) n")
  case (Some e)
  have np: "normalizePath unc (virtualPath vfs p) (File = Directory) = Inr n"
    and nq: "normalizePath unc (virtualPath vfs q) (File = Directory) = Inr n"
    using assms(3,4) by simp_all
  have "getFileForPath vfs protocolOf plugins unc p fs = Inr (e, fs)"
    using getEntryForPath_found [OF np Some] assms(1) by (simp add: getFileForPath_local)
  moreover have "getFileForPath vfs protocolOf plugins unc q fs = Inr (e, fs)"
    using getEntryForPath_found [OF nq Some] assms(2) by (simp add: getFileForPath_local)
  ultimately show ?thesis using Some assms(5) by blast
next
  case None
  let ?e = "newEntry File (nextId fs) n"
  let ?fs1 = "fs\<lparr>index := addEntry ?e (index fs), nextId := nextId fs + 1\<rparr>"
  have np: "normalizePath unc (virtualPath vfs p) (File = Directory) = Inr n"
    and nq: "normalizePath unc (virtualPath vfs q) (File = Directory) = Inr n"
    using assms(3,4) by simp_all
  have first: "getFileForPath vfs protocolOf plugins unc p fs = Inr (?e, ?fs1)"
    using getEntryForPath_new [OF np None] assms(1) by (simp add: getFileForPath_local)
  have here: "getEntry (index ?fs1) n = Some ?e"
    using getEntry_addEntry_same [of ?e "index fs"] by (simp add: fullPath_newEntry)
  have second: "getFileForPath vfs protocolOf plugins unc q ?fs1 = Inr (?e, ?fs1)"
    using getEntryForPath_found [OF nq here] assms(2) by (simp add: getFileForPath_local)
  have keep: "getEntry (index ?fs1) k = Some e'" if "getEntry (index fs) k = Some e'" for k e'
  proof -
    from that None have "k \<noteq> n" by auto
    then show ?thesis
      using getEntry_addEntry_other [of k ?e "index fs"] that by (simp add: fullPath_newEntry)
  qed
  have dist: "distinct (map fst (index ?fs1))"
    using distinct_addEntry [OF assms(5), of ?e] by simp
  from first second here keep dist show ?thesis by blast
qed

theorem getFileForPath_returns_the_indexed_entry_witness:
  "\<exists>e fs1.
     getFileForPath (\<lambda>u. None) (\<lambda>u. []) (\<lambda>u. []) False ''/a//b.txt''
       \<lparr>index = [], nextId = 0, events = [], watchedRoots = [], watchRequests = []\<rparr> =
       Inr (e, fs1) \<and>
     getFileForPath (\<lambda>u. None) (\<lambda>u. []) (\<lambda>u. []) False ''/a/x/../b.txt'' fs1 = Inr (e, fs1) \<and>
     getEntry (index fs1) ''/a/b.txt'' = Some e \<and>
     distinct (map fst (index fs1)) \<and>
     (\<forall>k e'. getEntry (index \<lparr>index = [], nextId = 0, events = [], watchedRoots = [],
                                watchRequests = []\<rparr>) k = Some e' \<longrightarrow>
             getEntry (index fs1) k = Some e')"
  by (rule getFileForPath_returns_the_indexed_entry)
    (simp_all add: usesFileImpl_def getProtocolAdapter_def virtualPath_def normalizePath_def
       isAbsolutePath_def charAt_def removeDotDotSegments.simps)

lemma getFileForPath_adapter_constructs_anew:
  "usesFileImpl (plugins (protocolOf (virtualPath vfs p))) \<Longrightarrow>
   getFileForPath vfs protocolOf plugins unc p fs = Inr (e1, fs1) \<Longrightarrow>
   getFileForPath vfs protocolOf plugins unc p fs1 = Inr (e2, fs2) \<Longrightarrow>
   ident e1 \<noteq> ident e2 \<and> index fs2 = index fs"
  by (auto simp: getFileForPath_def Let_def newEntry_def)

section \<open>Properties of watch\<close>

lemma booleanStatus_never: "booleanStatus b \<noteq> Some st"
  by (simp add: booleanStatus_def)

lemma watch_never_reports_a_watched_child:
  "fst (watch e fs) \<noteq> Called (Some (Message ''A child of this root is already watched''))"
  by (auto simp: watch_def Let_def booleanStatus_def watchOrUnwatchEntry_def
      enqueueWatchRequest_def split: option.splits)

lemma watch_refused_by_first_prefix_root:
  "findWatchedRootForPath fs (fullPath e) = Some r \<Longrightarrow> status r = STARTING \<or> status r = ACTIVE \<Longrightarrow>
   watch e fs = (Called (Some (Message ''A parent of this root is already watched'')), fs)"
  by (auto simp: watch_def Let_def)

lemma watch_passes_inactive_first_prefix_root:
  "findWatchedRootForPath fs (fullPath e) = Some r \<Longrightarrow> status r = INACTIVE \<Longrightarrow>
   watch e fs =
     (Pending,
      fs\<lparr>watchedRoots := AList.update (fullPath e)
             \<lparr>rootId = nextId fs, rootEntry = e, status = STARTING\<rparr> (watchedRoots fs),
         nextId := nextId fs + 1,
         watchRequests := watchRequests fs @ [\<lparr>shouldWatch = True, requestPath = fullPath e\<rparr>]\<rparr>)"
  by (auto simp: watch_def Let_def booleanStatus_def watchOrUnwatchEntry_def
      enqueueWatchRequest_def)

text \<open>
  Claim C3, on a failing input. After \<open>/a/b/\<close> has been watched and has become active,
  \<open>watch\<close> of its ancestor \<open>/a/\<close> does not fail: no callback is invoked with an error,
  \<open>/a/\<close> is registered as a second root in state STARTING and a watch request for it is
  sent to the backend. The test for a watched child reads \<open>.status\<close> of a boolean and
  never holds.
\<close>

theorem watch_above_an_active_root_is_accepted:
  "watchCallback ''/a/b/'' 0 None
     (watchRequestCompleted
        (snd (watch (newEntry Directory 7 ''/a/b/'')
           \<lparr>index = [], nextId = 0, events = [], watchedRoots = [], watchRequests = []\<rparr>))) =
   (Called None,
    \<lparr>index = [], nextId = 1, events = [],
     watchedRoots =
       [(''/a/b/'', \<lparr>rootId = 0, rootEntry = newEntry Directory 7 ''/a/b/'', status = ACTIVE\<rparr>)],
     watchRequests = []\<rparr>) \<and>
   watch (newEntry Directory 8 ''/a/'')
     \<lparr>index = [], nextId = 1, events = [],
      watchedRoots =
        [(''/a/b/'', \<lparr>rootId = 0, rootEntry = newEntry Directory 7 ''/a/b/'', status = ACTIVE\<rparr>)],
      watchRequests = []\<rparr> =
   (Pending,
    \<lparr>index = [], nextId = 2, events = [],
     watchedRoots =
       [(''/a/b/'', \<lparr>rootId = 0, rootEntry = newEntry Directory 7 ''/a/b/'', status = ACTIVE\<rparr>),
        (''/a/'', \<lparr>rootId = 1, rootEntry = newEntry Directory 8 ''/a/'', status = STARTING\<rparr>)],
     watchRequests = [\<lparr>shouldWatch = True, requestPath = ''/a/''\<rparr>]\<rparr>)"
  by (simp add: watch_def findWatchedRootForPath_def Let_def booleanStatus_def
      watchOrUnwatchEntry_def enqueueWatchRequest_def watchRequestCompleted_def
      watchCallback_def setRootStatus_def newEntry_def)

text \<open>
  Claim C10, on a failing input. \<open>/a/\<close> is watched and then unwatched, so that it is
  INACTIVE while its unwatch request is with the backend; \<open>/a/b/\<close> is watched meanwhile
  and is STARTING. A second \<open>watch\<close> of \<open>/a/b/\<close> does not fail: the lookup of a parent
  root stops at \<open>/a/\<close>, which is inactive, and \<open>/a/b/\<close> is registered again, as a new
  root object, with a second watch request.
\<close>

theorem watch_of_a_starting_root_is_accepted_again:
  "snd (watch (newEntry Directory 8 ''/a/b/'')
     (snd (unwatch (newEntry Directory 7 ''/a/'')
        (snd (watchCallback ''/a/'' 0 None
           (watchRequestCompleted
              (snd (watch (newEntry Directory 7 ''/a/'')
                 \<lparr>index = [], nextId = 0, events = [], watchedRoots = [],
                  watchRequests = []\<rparr>)))))))) =
   \<lparr>index = [], nextId = 2, events = [],
    watchedRoots =
      [(''/a/'', \<lparr>rootId = 0, rootEntry = newEntry Directory 7 ''/a/'', status = INACTIVE\<rparr>),
       (''/a/b/'', \<lparr>rootId = 1, rootEntry = newEntry Directory 8 ''/a/b/'', status = STARTING\<rparr>)],
    watchRequests =
      [\<lparr>shouldWatch = False, requestPath = ''/a/''\<rparr>,
       \<lparr>shouldWatch = True, requestPath = ''/a/b/''\<rparr>]\<rparr> \<and>
   watch (newEntry Directory 8 ''/a/b/'')
     \<lparr>index = [], nextId = 2, events = [],
      watchedRoots =
        [(''/a/'', \<lparr>rootId = 0, rootEntry = newEntry Directory 7 ''/a/'', status = INACTIVE\<rparr>),
         (''/a/b/'', \<lparr>rootId = 1, rootEntry = newEntry Directory 8 ''/a/b/'', status = STARTING\<rparr>)],
      watchRequests =
        [\<lparr>shouldWatch = False, requestPath = ''/a/''\<rparr>,
         \<lparr>shouldWatch = True, requestPath = ''/a/b/''\<rparr>]\<rparr> =
   (Pending,
    \<lparr>index = [], nextId = 3, events = [],
     watchedRoots =
       [(''/a/'', \<lparr>rootId = 0, rootEntry = newEntry Directory 7 ''/a/'', status = INACTIVE\<rparr>),
        (''/a/b/'', \<lparr>rootId = 2, rootEntry = newEntry Directory 8 ''/a/b/'', status = STARTING\<rparr>)],
     watchRequests =
       [\<lparr>shouldWatch = False, requestPath = ''/a/''\<rparr>,
        \<lparr>shouldWatch = True, requestPath = ''/a/b/''\<rparr>,
        \<lparr>shouldWatch = True, requestPath = ''/a/b/''\<rparr>]\<rparr>)"
  by (simp add: watch_def unwatch_def findWatchedRootForPath_def Let_def booleanStatus_def
      watchOrUnwatchEntry_def enqueueWatchRequest_def watchRequestCompleted_def
      watchCallback_def setRootStatus_def newEntry_def)

section \<open>Properties of getFreePath\<close>

lemma getNewPath_directory:
  "getNewPath pathLib p True i = pl_normalize pathLib p @ '' (copy '' @ showNat i @ '')''"
  by (simp add: getNewPath_def)

lemma getNewPath_file:
  "getNewPath pathLib p False i =
     pl_join pathLib (pl_dirname pathLib (pl_normalize pathLib p))
       (pl_basename pathLib (pl_normalize pathLib p) (pl_extname pathLib (pl_normalize pathLib p)) @
        ''(copy '' @ showNat i @ '')'' @ pl_extname pathLib (pl_normalize pathLib p))"
  by (simp add: getNewPath_def Let_def)

lemma probeNewPaths_first_free:
  assumes "i \<le> k" "k < MAX_DEDUPE_NUMBER"
    and "\<And>j. i \<le> j \<Longrightarrow> j < k \<Longrightarrow> existsAsync (getNewPath pathLib p isDir j) = Some True"
    and "existsAsync (getNewPath pathLib p isDir k) = Some False"
  shows "probeNewPaths existsAsync pathLib p isDir i = Some (None, Some (getNewPath pathLib p isDir k))"
  using assms
proof (induction existsAsync pathLib p isDir i rule: probeNewPaths.induct)
  case (1 existsAsync pathLib suggestedPath isDir i)
  show ?case
  proof (cases "i = k")
    case True
    then show ?thesis
      using "1.prems" by (subst probeNewPaths.simps) simp
  next
    case False
    then have lt: "i < k" using "1.prems"(1) by simp
    then have ex: "existsAsync (getNewPath pathLib suggestedPath isDir i) = Some True"
      using "1.prems"(3) by simp
    have "probeNewPaths existsAsync pathLib suggestedPath isDir (i + 1) =
        Some (None, Some (getNewPath pathLib suggestedPath isDir k))"
      using "1.IH" [OF _ refl ex] lt "1.prems" by simp
    then show ?thesis
      using ex lt "1.prems"(2) by (subst probeNewPaths.simps) simp
  qed
qed

lemma probeNewPaths_exhausted:
  assumes "\<And>j. i \<le> j \<Longrightarrow> j < MAX_DEDUPE_NUMBER \<Longrightarrow>
      existsAsync (getNewPath pathLib p isDir j) = Some True"
  shows "probeNewPaths existsAsync pathLib p isDir i = Some (Some TOO_MANY_ENTRIES, None)"
  using assms
proof (induction existsAsync pathLib p isDir i rule: probeNewPaths.induct)
  case (1 existsAsync pathLib suggestedPath isDir i)
  show ?case
  proof (cases "i < MAX_DEDUPE_NUMBER")
    case True
    then have ex: "existsAsync (getNewPath pathLib suggestedPath isDir i) = Some True"
      using "1.prems" by simp
    have "probeNewPaths existsAsync pathLib suggestedPath isDir (i + 1) =
        Some (Some TOO_MANY_ENTRIES, None)"
      using "1.IH" [OF True refl ex] "1.prems" by simp
    then show ?thesis
      using ex True by (subst probeNewPaths.simps) simp
  next
    case False
    then show ?thesis by (subst probeNewPaths.simps) simp
  qed
qed

text \<open>
  Claim C4, on a failing input. For the existing file \<open>/a/b/test.html\<close>, with no
  candidate taken, \<open>getFreePath\<close> returns \<open>/a/b/test(copy 1).html\<close>: the suffix of a file
  is inserted without the space that the suffix of a directory has
  (\<open>/a/b/dir (copy 1)\<close>).
\<close>

theorem getFreePath_file_suffix_has_no_space:
  "getFreePath (\<lambda>p. (None, Some \<lparr>isDirectory = False, mtime = 0\<rparr>)) (\<lambda>p. Some False)
     posixPathLib ''/a/b/test.html'' = Some (None, Some ''/a/b/test(copy 1).html'') \<and>
   getFreePath (\<lambda>p. (None, Some \<lparr>isDirectory = True, mtime = 0\<rparr>)) (\<lambda>p. Some False)
     posixPathLib ''/a/b/dir'' = Some (None, Some ''/a/b/dir (copy 1)'')"
proof -
  have f: "getNewPath posixPathLib ''/a/b/test.html'' False 1 = ''/a/b/test(copy 1).html''"
    by (simp add: getNewPath_def posixPathLib_def posixDirname_def posixExtname_def
        posixBasename_def digitChar_def suffix_def)
  have d: "getNewPath posixPathLib ''/a/b/dir'' True 1 = ''/a/b/dir (copy 1)''"
    by (simp add: getNewPath_def posixPathLib_def digitChar_def)
  have one: "(1::nat) < MAX_DEDUPE_NUMBER" by (simp add: MAX_DEDUPE_NUMBER_def)
  have "probeNewPaths (\<lambda>p. Some False) posixPathLib ''/a/b/test.html'' False 1 =
      Some (None, Some ''/a/b/test(copy 1).html'')"
    using one by (subst probeNewPaths.simps) (simp add: f del: One_nat_def)
  moreover have "probeNewPaths (\<lambda>p. Some False) posixPathLib ''/a/b/dir'' True 1 =
      Some (None, Some ''/a/b/dir (copy 1)'')"
    using one by (subst probeNewPaths.simps) (simp add: d del: One_nat_def)
  ultimately show ?thesis by (simp add: getFreePath_def del: One_nat_def)
qed

text \<open>
  Claim C9. When the backend's \<open>stat\<close> answers NOT\_FOUND and no stat object, the
  suggested path is returned as it is, with no error. When it answers with a stat object
  and every candidate that is probed (the numbers from 1 below MAX\_DEDUPE\_NUMBER) exists,
  the result is the error TOO\_MANY\_ENTRIES. When it answers with no stat object and
  anything other than NOT\_FOUND, that error is what the callback receives.
\<close>

theorem getFreePath_not_found_exhausted_and_other_errors:
  "(implStat p = (Some NOT_FOUND, None) \<longrightarrow>
      getFreePath implStat existsAsync pathLib p = Some (None, Some p)) \<and>
   (implStat p = (err, Some st) \<longrightarrow>
      (\<forall>i. 1 \<le> i \<and> i < MAX_DEDUPE_NUMBER \<longrightarrow>
           existsAsync (getNewPath pathLib p (isDirectory st) i) = Some True) \<longrightarrow>
      getFreePath implStat existsAsync pathLib p = Some (Some TOO_MANY_ENTRIES, None)) \<and>
   (implStat p = (err, None) \<longrightarrow> err \<noteq> Some NOT_FOUND \<longrightarrow>
      getFreePath implStat existsAsync pathLib p = Some (err, None))"
proof (intro conjI impI)
  assume "implStat p = (Some NOT_FOUND, None)"
  then show "getFreePath implStat existsAsync pathLib p = Some (None, Some p)"
    by (simp add: getFreePath_def)
next
  assume s: "implStat p = (err, Some st)"
    and all: "\<forall>i. 1 \<le> i \<and> i < MAX_DEDUPE_NUMBER \<longrightarrow>
           existsAsync (getNewPath pathLib p (isDirectory st) i) = Some True"
  have "probeNewPaths existsAsync pathLib p (isDirectory st) 1 = Some (Some TOO_MANY_ENTRIES, None)"
    by (rule probeNewPaths_exhausted) (use all in blast)
  then show "getFreePath implStat existsAsync pathLib p = Some (Some TOO_MANY_ENTRIES, None)"
    using s by (simp add: getFreePath_def del: One_nat_def)
next
  assume "implStat p = (err, None)" "err \<noteq> Some NOT_FOUND"
  then show "getFreePath implStat existsAsync pathLib p = Some (err, None)"
    by (simp add: getFreePath_def)
qed

text \<open>
  The three cases on \<open>/a/b/dir\<close>: nothing there; a directory there and every candidate
  taken; the backend failing with another error.
\<close>

theorem getFreePath_not_found_exhausted_and_other_errors_witness:
  "getFreePath (\<lambda>p. (Some NOT_FOUND, None)) (\<lambda>p. Some True) posixPathLib ''/a/b/dir'' =
     Some (None, Some ''/a/b/dir'') \<and>
   getFreePath (\<lambda>p. (None, Some \<lparr>isDirectory = True, mtime = 0\<rparr>)) (\<lambda>p. Some True)
     posixPathLib ''/a/b/dir'' = Some (Some TOO_MANY_ENTRIES, None) \<and>
   getFreePath (\<lambda>p. (Some (Message ''EACCES''), None)) (\<lambda>p. Some True) posixPathLib ''/a/b/dir'' =
     Some (Some (Message ''EACCES''), None)"
  using getFreePath_not_found_exhausted_and_other_errors
      [of "\<lambda>p. (Some NOT_FOUND, None)" "''/a/b/dir''" "\<lambda>p. Some True" posixPathLib "Some NOT_FOUND"
          "\<lparr>isDirectory = True, mtime = 0\<rparr>"]
    getFreePath_not_found_exhausted_and_other_errors
      [of "\<lambda>p. (None, Some \<lparr>isDirectory = True, mtime = 0\<rparr>)" "''/a/b/dir''" "\<lambda>p. Some True"
          posixPathLib None "\<lparr>isDirectory = True, mtime = 0\<rparr>"]
    getFreePath_not_found_exhausted_and_other_errors
      [of "\<lambda>p. (Some (Message ''EACCES''), None)" "''/a/b/dir''" "\<lambda>p. Some True" posixPathLib
          "Some (Message ''EACCES'')" "\<lparr>isDirectory = True, mtime = 0\<rparr>"]
  by simp

section \<open>Properties of the directory change\<close>

lemma completeAll_append:
  "completeAll (cs @ ds) dc = completeAll ds (completeAll cs dc)"
  by (induction cs dc rule: completeAll.induct) simp_all

lemma completeAll_outstanding:
  "callbackCalls dc = [] \<Longrightarrow> int (length cs) < counter dc \<Longrightarrow>
   callbackCalls (completeAll cs dc) = [] \<and>
   counter (completeAll cs dc) = counter dc - int (length cs) \<and>
   addedEntries (completeAll cs dc) = addedEntries dc \<and>
   removedEntries (completeAll cs dc) = removedEntries dc"
proof (induction cs dc rule: completeAll.induct)
  case (1 dc)
  then show ?case by simp
next
  case (2 operation err rest dc)
  let ?dc1 = "watchOrUnwatchCallback err dc"
  have step: "callbackCalls ?dc1 = [] \<and> counter ?dc1 = counter dc - 1 \<and>
      addedEntries ?dc1 = addedEntries dc \<and> removedEntries ?dc1 = removedEntries dc"
    using "2.prems" by (simp add: watchOrUnwatchCallback_def Let_def)
  then have "int (length rest) < counter ?dc1"
    using "2.prems" by simp
  from "2.IH" [OF _ this] step show ?case by simp
qed

lemma completeAll_last:
  assumes "callbackCalls dc = []" "counter dc = int (length cs)" "cs \<noteq> []"
  shows "callbackCalls (completeAll cs dc) = [(addedEntries dc, removedEntries dc)]"
proof -
  from assms(3) obtain ds c where cs: "cs = ds @ [c]"
    by (metis append_butlast_last_id)
  obtain operation err where c: "c = (operation, err)" by (cases c)
  have "int (length ds) < counter dc" using assms(2) cs by simp
  from completeAll_outstanding [OF assms(1) this]
  have mid: "callbackCalls (completeAll ds dc) = []"
    "counter (completeAll ds dc) = 1"
    "addedEntries (completeAll ds dc) = addedEntries dc"
    "removedEntries (completeAll ds dc) = removedEntries dc"
    using assms(2) cs by simp_all
  show ?thesis
    unfolding cs c completeAll_append
    using mid by (simp add: watchOrUnwatchCallback_def Let_def)
qed

lemma listLength_listEntries: "listLength es = int (length (listEntries es))"
  by (simp add: listLength_def listEntries_def split: option.splits)

text \<open>
  Claim C8. The directory lies under a watched root (the one \<open>_findWatchedRootForPath\<close>
  finds) whose filter accepts it, and the difference of the listings has
  \<open>N = |added| + |removed| > 0\<close> entries. Then one sub-operation is issued per entry,
  \<open>N\<close> in all. Let them complete in any order \<open>cs\<close>, with or without errors: after
  fewer than \<open>N\<close> completions the callback has not been invoked, and after all \<open>N\<close> it
  has been invoked exactly once, with the two difference lists.
\<close>

theorem directory_change_reported_once_after_all_sub_operations:
  assumes "findWatchedRootForPath fs (fullPath d) = Some r" and "filt r d"
    and "directoryDiff old new = Some (added, removed)"
    and "0 < listLength added + listLength removed"
    and "mset (map fst cs) =
         mset (map WatchEntry (listEntries added) @ map UnwatchEntry (listEntries removed))"
  shows "\<exists>dc. handleDirectoryChangeListed filt d old new fs =
           Some (dc, map WatchEntry (listEntries added) @ map UnwatchEntry (listEntries removed), fs) \<and>
         int (length cs) = listLength added + listLength removed \<and>
         callbackCalls (completeAll cs dc) = [(added, removed)] \<and>
         (\<forall>k<length cs. callbackCalls (completeAll (take k cs) dc) = [])"
proof -
  let ?n = "listLength added + listLength removed"
  let ?dc = "\<lparr>addedEntries = added, removedEntries = removed, counter = ?n, callbackCalls = []\<rparr>"
  let ?ops = "map WatchEntry (listEntries added) @ map UnwatchEntry (listEntries removed)"
  have start: "handleDirectoryChangeListed filt d old new fs = Some (?dc, ?ops, fs)"
    using assms(1-4) by (simp add: handleDirectoryChangeListed_def Let_def)
  have "length cs = length ?ops"
    using assms(5) by (metis length_map size_mset)
  then have len: "int (length cs) = ?n"
    by (simp add: listLength_listEntries)
  then have ne: "cs \<noteq> []" using assms(4) by auto
  have fin: "callbackCalls (completeAll cs ?dc) = [(added, removed)]"
    using completeAll_last [of ?dc cs] len ne by simp
  have before: "callbackCalls (completeAll (take k cs) ?dc) = []" if "k < length cs" for k
    using completeAll_outstanding [of ?dc "take k cs"] that len by simp
  from start len fin before show ?thesis by blast
qed

text \<open>
  One entry added and one removed; the unwatch completes first, with an error, the watch
  second.
\<close>

theorem directory_change_reported_once_after_all_sub_operations_witness:
  "\<exists>dc. handleDirectoryChangeListed (\<lambda>r e. True) (newEntry Directory 1 ''/p/d/'')
       (Some [newEntry File 2 ''/p/d/old.txt''])
       (Some [newEntry File 3 ''/p/d/new.txt''])
       \<lparr>index = [], nextId = 4, events = [],
        watchedRoots =
          [(''/p/'', \<lparr>rootId = 0, rootEntry = newEntry Directory 0 ''/p/'', status = ACTIVE\<rparr>)],
        watchRequests = []\<rparr> =
     Some (dc,
       map WatchEntry (listEntries (Some [newEntry File 3 ''/p/d/new.txt''])) @
       map UnwatchEntry (listEntries (Some [newEntry File 2 ''/p/d/old.txt''])),
       \<lparr>index = [], nextId = 4, events = [],
        watchedRoots =
          [(''/p/'', \<lparr>rootId = 0, rootEntry = newEntry Directory 0 ''/p/'', status = ACTIVE\<rparr>)],
        watchRequests = []\<rparr>) \<and>
     int (length [(UnwatchEntry (newEntry File 2 ''/p/d/old.txt''), Some (Message ''failed'')),
                  (WatchEntry (newEntry File 3 ''/p/d/new.txt''), None)]) =
       listLength (Some [newEntry File 3 ''/p/d/new.txt'']) +
       listLength (Some [newEntry File 2 ''/p/d/old.txt'']) \<and>
     callbackCalls
       (completeAll [(UnwatchEntry (newEntry File 2 ''/p/d/old.txt''), Some (Message ''failed'')),
                     (WatchEntry (newEntry File 3 ''/p/d/new.txt''), None)] dc) =
       [(Some [newEntry File 3 ''/p/d/new.txt''], Some [newEntry File 2 ''/p/d/old.txt''])] \<and>
     (\<forall>k<length [(UnwatchEntry (newEntry File 2 ''/p/d/old.txt''), Some (Message ''failed'')),
                  (WatchEntry (newEntry File 3 ''/p/d/new.txt''), None)].
        callbackCalls
          (completeAll
             (take k [(UnwatchEntry (newEntry File 2 ''/p/d/old.txt''), Some (Message ''failed'')),
                      (WatchEntry (newEntry File 3 ''/p/d/new.txt''), None)]) dc) = [])"
  by (rule directory_change_reported_once_after_all_sub_operations
        [where r = "\<lparr>rootId = 0, rootEntry = newEntry Directory 0 ''/p/'', status = ACTIVE\<rparr>"])
    (simp_all add: findWatchedRootForPath_def newEntry_def directoryDiff_def notIn_def
       listLength_def listEntries_def)

end
